theory Spec2Isabelle
  imports Main
begin

section \<open>The board of the minesweeper program\<close>

text \<open>
  The program keeps a fixed \<open>ROWS\<close> by \<open>COLS\<close> array of cells. Every access to the
  array in the source is guarded by a bounds check, so the array is modelled as a store
  from coordinates to cells and the bounds check \<open>inb\<close> is written out wherever the
  source has it.
\<close>

definition ROWS :: int where "ROWS = 9"
definition COLS :: int where "COLS = 9"
definition MINES :: int where "MINES = 10"

record Cell =
  revealed :: bool
  hasMine :: bool
  flagged :: bool
  nearbyMines :: int

type_synonym board = "int \<times> int \<Rightarrow> Cell"

definition inb :: "int \<Rightarrow> int \<Rightarrow> bool" where
  "inb r c \<longleftrightarrow> r \<ge> 0 \<and> r < ROWS \<and> c \<ge> 0 \<and> c < COLS"

text \<open>The nested loop \<open>for r < ROWS: for c < COLS\<close>, threading a state through the body.\<close>

definition for_cells :: "(int \<Rightarrow> int \<Rightarrow> 's \<Rightarrow> 's) \<Rightarrow> 's \<Rightarrow> 's" where
  "for_cells body s = fold (\<lambda>r. fold (\<lambda>c. body r c) [0..COLS - 1]) [0..ROWS - 1] s"

text \<open>The nested loop \<open>for dr in -1..1: for dc in -1..1\<close> visits these offsets in this order.\<close>

definition offsets :: "(int \<times> int) list" where
  "offsets = concat (map (\<lambda>dr. map (\<lambda>dc. (dr, dc)) [-1, 0, 1]) [-1, 0, 1])"

subsection \<open>Board setup\<close>

definition InitializeBoard :: "board \<Rightarrow> board" where
  "InitializeBoard b =
     for_cells (\<lambda>r c b. b((r, c) :=
        \<lparr>revealed = False, hasMine = False, flagged = False, nearbyMines = 0\<rparr>)) b"

text \<open>
  \<open>PlaceMines\<close> draws from \<open>rand()\<close>. The generator is a parameter: \<open>rnd i\<close> is the
  (non-negative) result of the \<open>i\<close>-th call. The loop has no bound of its own, so it is
  a partial function: \<open>None\<close> stands for a loop that never ends.
\<close>

partial_function (option) PlaceMines_loop ::
  "(nat \<Rightarrow> nat) \<Rightarrow> nat \<Rightarrow> board \<Rightarrow> int \<Rightarrow> board option" where
  "PlaceMines_loop rnd i b placed =
     (if placed < MINES then
        (let r = int (rnd i) mod ROWS; c = int (rnd (i + 1)) mod COLS in
         if \<not> hasMine (b (r, c))
         then PlaceMines_loop rnd (i + 2) (b((r, c) := (b (r, c))\<lparr>hasMine := True\<rparr>)) (placed + 1)
         else PlaceMines_loop rnd (i + 2) b placed)
      else Some b)"

definition PlaceMines :: "(nat \<Rightarrow> nat) \<Rightarrow> board \<Rightarrow> board option" where
  "PlaceMines rnd b = PlaceMines_loop rnd 0 b 0"

definition count_around :: "board \<Rightarrow> int \<Rightarrow> int \<Rightarrow> int" where
  "count_around b r c =
     fold (\<lambda>(dr, dc) count.
             (let nr = r + dr; nc = c + dc in
              if inb nr nc \<and> hasMine (b (nr, nc)) then count + 1 else count))
          offsets 0"

definition CountNearbyMines :: "board \<Rightarrow> board" where
  "CountNearbyMines b =
     for_cells (\<lambda>r c b.
        if hasMine (b (r, c)) then b
        else b((r, c) := (b (r, c))\<lparr>nearbyMines := count_around b r c\<rparr>)) b"

subsection \<open>Cascade and loss\<close>

text \<open>The assignment \<open>board[r][c].revealed = true\<close>.\<close>

definition set_revealed :: "board \<Rightarrow> int \<Rightarrow> int \<Rightarrow> board" where
  "set_revealed b r c = b((r, c) := (b (r, c))\<lparr>revealed := True\<rparr>)"

text \<open>
  \<open>RevealEmpty\<close> is recursive inside its double loop. \<open>RevealEmpty_loop ord b row col ds\<close>
  is the rest \<open>ds\<close> of the loop at \<open>(row, col)\<close>; a recursive call starts a fresh loop
  over \<open>ord\<close>. The source's order is \<open>offsets\<close>; the order is a parameter so that
  the dependence of the result on it can be stated.
\<close>

definition hidden :: "board \<Rightarrow> (int \<times> int) set" where
  "hidden b = {(r, c). inb r c \<and> \<not> revealed (b (r, c))}"

function (sequential) RevealEmpty_loop ::
  "(int \<times> int) list \<Rightarrow> board \<Rightarrow> int \<Rightarrow> int \<Rightarrow> (int \<times> int) list \<Rightarrow> board" where
  "RevealEmpty_loop ord b row col [] = b"
| "RevealEmpty_loop ord b row col ((dr, dc) # ds) =
     (let nr = row + dr; nc = col + dc in
      if inb nr nc then
        if \<not> revealed (b (nr, nc)) \<and> \<not> hasMine (b (nr, nc)) then
          (let b1 = set_revealed b nr nc in
           if nearbyMines (b1 (nr, nc)) = 0
           then RevealEmpty_loop ord (RevealEmpty_loop ord b1 nr nc ord) row col ds
           else RevealEmpty_loop ord b1 row col ds)
        else RevealEmpty_loop ord b row col ds
      else RevealEmpty_loop ord b row col ds)"
  by pat_completeness auto

lemma finite_hidden: "finite (hidden b)"
proof -
  have "hidden b \<subseteq> {0..<ROWS} \<times> {0..<COLS}"
    by (auto simp: hidden_def inb_def)
  then show ?thesis
    by (rule finite_subset) simp
qed

lemma hidden_reveal:
  "inb r c \<Longrightarrow> \<not> revealed (b (r, c)) \<Longrightarrow> hidden (set_revealed b r c) \<subset> hidden b"
  by (auto simp: hidden_def set_revealed_def)

lemma card_hidden_reveal:
  "inb r c \<Longrightarrow> \<not> revealed (b (r, c)) \<Longrightarrow> card (hidden (set_revealed b r c)) < card (hidden b)"
  by (intro psubset_card_mono finite_hidden hidden_reveal)

lemma RevealEmpty_loop_dom_hidden:
  "RevealEmpty_loop_dom (ord, b, row, col, ds) \<Longrightarrow>
   hidden (RevealEmpty_loop ord b row col ds) \<subseteq> hidden b"
proof (induction ord b row col ds rule: RevealEmpty_loop.pinduct)
  case (1 ord b row col)
  then show ?case by (simp add: RevealEmpty_loop.psimps(1))
next
  case (2 ord b row col dr dc ds)
  let ?nr = "row + dr" and ?nc = "col + dc"
  let ?b1 = "set_revealed b ?nr ?nc"
  note eq = RevealEmpty_loop.psimps(2) [OF 2(1)]
  show ?case
  proof (cases "inb ?nr ?nc \<and> \<not> revealed (b (?nr, ?nc)) \<and> \<not> hasMine (b (?nr, ?nc))")
    case False
    have "RevealEmpty_loop ord b row col ((dr, dc) # ds) = RevealEmpty_loop ord b row col ds"
      unfolding eq Let_def using False by auto
    moreover have "hidden (RevealEmpty_loop ord b row col ds) \<subseteq> hidden b"
      using False 2(5) [OF refl refl] 2(6) [OF refl refl] by blast
    ultimately show ?thesis by simp
  next
    case True
    have sub1: "hidden ?b1 \<subseteq> hidden b"
      using True hidden_reveal [of ?nr ?nc b] by blast
    show ?thesis
    proof (cases "nearbyMines (?b1 (?nr, ?nc)) = 0")
      case zero: True
      let ?b2 = "RevealEmpty_loop ord ?b1 ?nr ?nc ord"
      have "RevealEmpty_loop ord b row col ((dr, dc) # ds) = RevealEmpty_loop ord ?b2 row col ds"
        unfolding eq Let_def using True zero by simp
      moreover have "hidden ?b2 \<subseteq> hidden ?b1"
        using True zero by (intro 2(2) [OF refl refl _ _ refl]) simp_all
      moreover have "hidden (RevealEmpty_loop ord ?b2 row col ds) \<subseteq> hidden ?b2"
        using True zero by (intro 2(3) [OF refl refl _ _ refl]) simp_all
      ultimately show ?thesis using sub1 by simp
    next
      case nonzero: False
      have "RevealEmpty_loop ord b row col ((dr, dc) # ds) = RevealEmpty_loop ord ?b1 row col ds"
        unfolding eq Let_def using True nonzero by simp
      moreover have "hidden (RevealEmpty_loop ord ?b1 row col ds) \<subseteq> hidden ?b1"
        using True nonzero by (intro 2(4) [OF refl refl _ _ refl]) simp_all
      ultimately show ?thesis using sub1 by simp
    qed
  qed
qed

termination RevealEmpty_loop
proof (relation "inv_image (less_than <*lex*> less_than)
          (\<lambda>(ord, b, row, col, ds). (card (hidden b), length ds))", goal_cases)
  case 1
  show ?case by (intro wf_inv_image wf_lex_prod wf_less_than)
next
  case (2 ord b row col dr dc ds nr nc b1)
  then have "card (hidden b1) < card (hidden b)"
    using card_hidden_reveal [of nr nc b] by simp
  then show ?case by simp
next
  case (3 ord b row col dr dc ds nr nc b1)
  then have "hidden b1 \<subset> hidden b"
    using hidden_reveal [of nr nc b] by simp
  moreover have "hidden (RevealEmpty_loop ord b1 nr nc ord) \<subseteq> hidden b1"
    using 3 by (intro RevealEmpty_loop_dom_hidden)
  ultimately have "hidden (RevealEmpty_loop ord b1 nr nc ord) \<subset> hidden b"
    by (rule subset_psubset_trans [rotated])
  then have "card (hidden (RevealEmpty_loop ord b1 nr nc ord)) < card (hidden b)"
    by (intro psubset_card_mono finite_hidden)
  then show ?case by simp
next
  case (4 ord b row col dr dc ds nr nc b1)
  then have "card (hidden b1) < card (hidden b)"
    using card_hidden_reveal [of nr nc b] by simp
  then show ?case by simp
next
  case (5 ord b row col dr dc ds nr nc)
  show ?case by simp
next
  case (6 ord b row col dr dc ds nr nc)
  show ?case by simp
qed

declare RevealEmpty_loop.simps [simp del]

definition RevealEmpty :: "board \<Rightarrow> int \<Rightarrow> int \<Rightarrow> board" where
  "RevealEmpty b row col = RevealEmpty_loop offsets b row col offsets"

definition RevealAllMines :: "board \<Rightarrow> board" where
  "RevealAllMines b =
     for_cells (\<lambda>r c b. if hasMine (b (r, c)) then set_revealed b r c else b) b"

subsection \<open>The main loop\<close>

text \<open>
  The state of \<open>main\<close> that the rules of the game read and write: the board and the two
  flags \<open>gameOver\<close> and \<open>win\<close>. Sound and drawing calls do not touch this state and are
  left out. One pass of the \<open>while\<close> loop receives the cell under the mouse and the two
  buttons.
\<close>

record game =
  board :: board
  gameOver :: bool
  win :: bool

record input =
  mouse_row :: int
  mouse_col :: int
  left_pressed :: bool
  right_pressed :: bool

definition left_click :: "game \<Rightarrow> int \<Rightarrow> int \<Rightarrow> game" where
  "left_click g row col =
     (if row \<ge> 0 \<and> row < ROWS \<and> col \<ge> 0 \<and> col < COLS then
        if \<not> flagged (board g (row, col)) \<and> \<not> revealed (board g (row, col)) then
          (let b1 = set_revealed (board g) row col in
           if hasMine (b1 (row, col))
           then g\<lparr>board := RevealAllMines b1, gameOver := True\<rparr>
           else if nearbyMines (b1 (row, col)) = 0
                then g\<lparr>board := RevealEmpty b1 row col\<rparr>
                else g\<lparr>board := b1\<rparr>)
        else g
      else g)"

definition right_click :: "game \<Rightarrow> int \<Rightarrow> int \<Rightarrow> game" where
  "right_click g row col =
     (if row \<ge> 0 \<and> row < ROWS \<and> col \<ge> 0 \<and> col < COLS \<and> \<not> revealed (board g (row, col))
      then g\<lparr>board := (board g)((row, col) :=
                (board g (row, col))\<lparr>flagged := \<not> flagged (board g (row, col))\<rparr>)\<rparr>
      else g)"

definition HandleMouseInput :: "game \<Rightarrow> input \<Rightarrow> game" where
  "HandleMouseInput g i =
     (let g1 = (if left_pressed i then left_click g (mouse_row i) (mouse_col i) else g)
      in if right_pressed i then right_click g1 (mouse_row i) (mouse_col i) else g1)"

definition revealedCount :: "board \<Rightarrow> int" where
  "revealedCount b =
     for_cells (\<lambda>r c n. if revealed (b (r, c)) \<and> \<not> hasMine (b (r, c)) then n + 1 else n) 0"

definition CheckWin :: "board \<Rightarrow> bool" where
  "CheckWin b \<longleftrightarrow> revealedCount b = ROWS * COLS - MINES"

definition frame :: "game \<Rightarrow> input \<Rightarrow> game" where
  "frame g i =
     (if \<not> gameOver g \<and> \<not> win g then
        (let g1 = HandleMouseInput g i
         in if CheckWin (board g1) then g1\<lparr>win := True\<rparr> else g1)
      else g)"

text \<open>
  The commands of the specification are passes of the loop with one button pressed.
\<close>

definition Reveal :: "game \<Rightarrow> int \<Rightarrow> int \<Rightarrow> game" where
  "Reveal g row col =
     frame g \<lparr>mouse_row = row, mouse_col = col, left_pressed = True, right_pressed = False\<rparr>"

definition ToggleFlag :: "game \<Rightarrow> int \<Rightarrow> int \<Rightarrow> game" where
  "ToggleFlag g row col =
     frame g \<lparr>mouse_row = row, mouse_col = col, left_pressed = False, right_pressed = True\<rparr>"

datatype phase = Playing | Won | Lost

text \<open>The status line shows the loss first, then the win, as \<open>DrawGame\<close> does.\<close>

definition phase_of :: "game \<Rightarrow> phase" where
  "phase_of g = (if gameOver g then Lost else if win g then Won else Playing)"

text \<open>
  The start of \<open>main\<close>: the array is uninitialised memory \<open>b0\<close>, then the three setup
  calls run and both flags are cleared.
\<close>

definition new_game :: "(nat \<Rightarrow> nat) \<Rightarrow> board \<Rightarrow> game option" where
  "new_game rnd b0 =
     (case PlaceMines rnd (InitializeBoard b0) of
        None \<Rightarrow> None
      | Some b \<Rightarrow> Some \<lparr>board = CountNearbyMines b, gameOver = False, win = False\<rparr>)"

inductive reachable :: "game \<Rightarrow> bool" where
  start: "new_game rnd b0 = Some g \<Longrightarrow> reachable g"
| step: "reachable g \<Longrightarrow> reachable (frame g i)"

section \<open>Vocabulary of the properties\<close>

text \<open>
  The definitions of this section are not code of the program: they name the sets and
  relations in which the properties are stated.
\<close>

subsection \<open>The grid and its cells\<close>

text \<open>The cells in the order of the nested loops, and as a set.\<close>

definition cells :: "(int \<times> int) list" where
  "cells = concat (map (\<lambda>r. map (\<lambda>c. (r, c)) [0..COLS - 1]) [0..ROWS - 1])"

definition grid :: "(int \<times> int) set" where
  "grid = {(r, c). inb r c}"

text \<open>
  Two cells are neighbours when they differ by at most one in each coordinate (a cell is a
  neighbour of itself, as the double loop over the offsets also visits offset \<open>(0, 0)\<close>).
\<close>

definition nbr :: "int \<times> int \<Rightarrow> int \<times> int \<Rightarrow> bool" where
  "nbr p q \<longleftrightarrow> \<bar>fst q - fst p\<bar> \<le> 1 \<and> \<bar>snd q - snd p\<bar> \<le> 1"

text \<open>The mines of a board, their number, and the mined neighbours of a cell.\<close>

definition mine_set :: "board \<Rightarrow> (int \<times> int) set" where
  "mine_set b = {p \<in> grid. hasMine (b p)}"

definition mine_count :: "board \<Rightarrow> nat" where
  "mine_count b = card {p \<in> grid. hasMine (b p)}"

definition mined_neighbours :: "board \<Rightarrow> int \<times> int \<Rightarrow> (int \<times> int) set" where
  "mined_neighbours b p = {n \<in> grid. n \<noteq> p \<and> nbr p n \<and> hasMine (b n)}"

text \<open>The revealed cells without a mine: the cells the win check counts.\<close>

definition safe_revealed :: "board \<Rightarrow> (int \<times> int) set" where
  "safe_revealed b = {p \<in> grid. revealed (b p) \<and> \<not> hasMine (b p)}"

subsection \<open>The region of a cascade\<close>

text \<open>
  The cells without a mine whose count is 0; the cells that a chain of neighbouring cells
  of a set \<open>Z\<close> connects to a start cell; the connected region of zero cells around a
  cell; the ring of non-zero cells without a mine that border it; and the region with all
  its neighbours without a mine, which is the union of the two when the start is a zero
  cell.
\<close>

definition zero_cells :: "board \<Rightarrow> (int \<times> int) set" where
  "zero_cells b = {p \<in> grid. \<not> hasMine (b p) \<and> nearbyMines (b p) = 0}"

inductive_set region :: "(int \<times> int) set \<Rightarrow> int \<times> int \<Rightarrow> (int \<times> int) set"
  for Z :: "(int \<times> int) set" and s :: "int \<times> int" where
  start: "s \<in> region Z s"
| step: "z \<in> region Z s \<Longrightarrow> nbr z z' \<Longrightarrow> z' \<in> Z \<Longrightarrow> z' \<in> region Z s"

definition zero_region :: "board \<Rightarrow> int \<times> int \<Rightarrow> (int \<times> int) set" where
  "zero_region b s = region (zero_cells b) s"

definition ring :: "board \<Rightarrow> int \<times> int \<Rightarrow> (int \<times> int) set" where
  "ring b s = {n \<in> grid. \<not> hasMine (b n) \<and> nearbyMines (b n) \<noteq> 0
                 \<and> (\<exists>z \<in> zero_region b s. nbr z n)}"

definition cascade_set :: "board \<Rightarrow> int \<times> int \<Rightarrow> (int \<times> int) set" where
  "cascade_set b s = {n \<in> grid. \<not> hasMine (b n) \<and> (\<exists>z \<in> region (zero_cells b) s. nbr z n)}"

subsection \<open>Relations between boards, and an invariant\<close>

text \<open>
  \<open>only_reveals b b'\<close>: the board \<open>b'\<close> is \<open>b\<close> with some cells of the grid without a mine
  set to revealed. \<open>only_mines b b'\<close>: \<open>b'\<close> is \<open>b\<close> with mines put on some cells of the
  grid. A board is \<open>closed\<close> when every revealed zero cell has all its neighbours without
  a mine revealed, which is how every finished cascade leaves the board.
\<close>

definition only_reveals :: "board \<Rightarrow> board \<Rightarrow> bool" where
  "only_reveals b b' \<longleftrightarrow>
     (\<forall>p. b' p = b p \<or> (p \<in> grid \<and> \<not> hasMine (b p) \<and> b' p = (b p)\<lparr>revealed := True\<rparr>))"

definition only_mines :: "board \<Rightarrow> board \<Rightarrow> bool" where
  "only_mines b b' \<longleftrightarrow> (\<forall>p. b' p = b p \<or> (p \<in> grid \<and> b' p = (b p)\<lparr>hasMine := True\<rparr>))"

definition closed :: "board \<Rightarrow> bool" where
  "closed b \<longleftrightarrow>
     (\<forall>z \<in> grid. \<forall>n \<in> grid.
        revealed (b z) \<and> \<not> hasMine (b z) \<and> nearbyMines (b z) = 0 \<and> nbr z n \<and> \<not> hasMine (b n)
        \<longrightarrow> revealed (b n))"

subsection \<open>Random sources\<close>

text \<open>
  The cell that the \<open>k\<close>-th pass of the placement loop draws when the loop starts at call
  \<open>i\<close> of the generator.
\<close>

definition drawn :: "(nat \<Rightarrow> nat) \<Rightarrow> nat \<Rightarrow> nat \<Rightarrow> int \<times> int" where
  "drawn rnd i k = (int (rnd (i + 2 * k)) mod ROWS, int (rnd (i + 2 * k + 1)) mod COLS)"

subsection \<open>A concrete game\<close>

text \<open>
  The examples run on one game. The array starts as arbitrary memory, \<open>garbage\<close>. The
  generator \<open>rnd0\<close> returns the numbers of \<open>draws0\<close>, two for each pass of the placement
  loop; the sixth pass draws the cell (0, 2) again. The ten mines it places wall off the
  corner (0, 0) and fill the right part of the last row. \<open>stuck_rnd\<close> is a generator
  that always returns 0.
\<close>

definition garbage :: board where
  "garbage = (\<lambda>_. \<lparr>revealed = True, hasMine = True, flagged = True, nearbyMines = 7\<rparr>)"

definition draws0 :: "nat list" where
  "draws0 = [0, 2, 1, 2, 2, 2, 2, 1, 2, 0, 9, 11, 8, 8, 8, 7, 8, 6, 8, 5, 8, 4]"

definition rnd0 :: "nat \<Rightarrow> nat" where
  "rnd0 i = (if i < length draws0 then draws0 ! i else 0)"

definition stuck_rnd :: "nat \<Rightarrow> nat" where
  "stuck_rnd i = 0"

definition mines0 :: "(int \<times> int) list" where
  "mines0 = [(0, 2), (1, 2), (2, 2), (2, 1), (2, 0), (8, 8), (8, 7), (8, 6), (8, 5), (8, 4)]"

definition board0 :: board where
  "board0 = CountNearbyMines
     (fold (\<lambda>p b. b(p := (b p)\<lparr>hasMine := True\<rparr>)) mines0 (InitializeBoard garbage))"

definition game0 :: game where
  "game0 = \<lparr>board = board0, gameOver = False, win = False\<rparr>"

text \<open>
  A game played to the end: \<open>Reveal\<close> at every cell of the grid that holds no mine, in
  the order of \<open>cells\<close>.
\<close>

definition play_safe :: "game \<Rightarrow> (int \<times> int) list \<Rightarrow> game" where
  "play_safe g ps =
     fold (\<lambda>(r, c) g. if hasMine (board g (r, c)) then g else Reveal g r c) ps g"

definition won_game :: game where
  "won_game = play_safe game0 cells"

section \<open>Auxiliary facts\<close>

subsection \<open>Loops over the board\<close>

lemma fold_concat_map:
  "fold f (concat (map g xs)) s = fold (\<lambda>x. fold f (g x)) xs s"
  by (induction xs arbitrary: s) simp_all

lemma for_cells_fold: "for_cells body s = fold (\<lambda>(r, c). body r c) cells s"
  by (simp add: for_cells_def cells_def fold_concat_map fold_map comp_def)

lemma set_cells: "set cells = {(r, c). inb r c}"
  by (auto simp: cells_def inb_def)

lemma distinct_cells: "distinct cells"
  unfolding cells_def ROWS_def COLS_def
  by (intro distinct_concat) (auto simp: distinct_map inj_on_def)

lemma fold_pointwise:
  assumes "distinct ps"
    and "\<And>p q b. p \<noteq> q \<Longrightarrow> F q (b(p := F p b)) = F q b"
  shows "fold (\<lambda>p b. b(p := F p b)) ps b = (\<lambda>q. if q \<in> set ps then F q b else b q)"
  using assms(1)
proof (induction ps arbitrary: b)
  case Nil
  show ?case by simp
next
  case (Cons p ps)
  have "fold (\<lambda>p b. b(p := F p b)) (p # ps) b = fold (\<lambda>p b. b(p := F p b)) ps (b(p := F p b))"
    by simp
  also have "\<dots> = (\<lambda>q. if q \<in> set ps then F q (b(p := F p b)) else (b(p := F p b)) q)"
    by (rule Cons.IH) (use Cons.prems in simp)
  also have "\<dots> = (\<lambda>q. if q \<in> set (p # ps) then F q b else b q)"
  proof (rule ext)
    fix q
    show "(if q \<in> set ps then F q (b(p := F p b)) else (b(p := F p b)) q)
        = (if q \<in> set (p # ps) then F q b else b q)"
    proof (cases "q \<in> set ps")
      case True
      then have "p \<noteq> q" using Cons.prems by auto
      then show ?thesis using True assms(2) [of p q b] by simp
    next
      case False
      then show ?thesis by simp
    qed
  qed
  finally show ?case .
qed

lemma for_cells_pointwise:
  assumes "\<And>r c b. body r c b = b((r, c) := F (r, c) b)"
    and "\<And>p q b. p \<noteq> q \<Longrightarrow> F q (b(p := F p b)) = F q b"
  shows "for_cells body b (r, c) = (if inb r c then F (r, c) b else b (r, c))"
proof -
  have "(\<lambda>(r, c). body r c) = (\<lambda>p b. b(p := F p b))"
    by (auto simp: fun_eq_iff assms(1))
  then have "for_cells body b = fold (\<lambda>p b. b(p := F p b)) cells b"
    by (simp only: for_cells_fold)
  also have "\<dots> = (\<lambda>q. if q \<in> set cells then F q b else b q)"
    by (rule fold_pointwise [OF distinct_cells]) (rule assms(2))
  finally show ?thesis by (simp add: set_cells)
qed

lemma InitializeBoard_apply:
  "InitializeBoard b (r, c) =
     (if inb r c then \<lparr>revealed = False, hasMine = False, flagged = False, nearbyMines = 0\<rparr>
      else b (r, c))"
  unfolding InitializeBoard_def
  by (rule for_cells_pointwise [where F = "\<lambda>p b. \<lparr>revealed = False, hasMine = False, flagged = False, nearbyMines = 0\<rparr>"]) simp_all

lemma RevealAllMines_apply:
  "RevealAllMines b (r, c) =
     (if inb r c \<and> hasMine (b (r, c)) then (b (r, c))\<lparr>revealed := True\<rparr> else b (r, c))"
proof -
  have "for_cells (\<lambda>r c b. if hasMine (b (r, c)) then set_revealed b r c else b) b (r, c)
      = (if inb r c then (if hasMine (b (r, c)) then (b (r, c))\<lparr>revealed := True\<rparr> else b (r, c)) else b (r, c))"
    by (rule for_cells_pointwise [where F = "\<lambda>p b. if hasMine (b p) then (b p)\<lparr>revealed := True\<rparr> else b p"])
       (auto simp: set_revealed_def fun_eq_iff)
  then show ?thesis by (simp add: RevealAllMines_def)
qed

lemma count_around_cong:
  "(\<And>p. hasMine (b' p) = hasMine (b p)) \<Longrightarrow> count_around b' r c = count_around b r c"
  by (simp add: count_around_def)

lemma CountNearbyMines_apply:
  "CountNearbyMines b (r, c) =
     (if inb r c \<and> \<not> hasMine (b (r, c)) then (b (r, c))\<lparr>nearbyMines := count_around b r c\<rparr>
      else b (r, c))"
proof -
  let ?F = "\<lambda>p b. if hasMine (b p) then b p else (b p)\<lparr>nearbyMines := count_around b (fst p) (snd p)\<rparr>"
  have "for_cells (\<lambda>r c b. if hasMine (b (r, c)) then b
        else b((r, c) := (b (r, c))\<lparr>nearbyMines := count_around b r c\<rparr>)) b (r, c)
      = (if inb r c then ?F (r, c) b else b (r, c))"
  proof (rule for_cells_pointwise [where F = ?F], goal_cases)
    case (1 r c b)
    show ?case by (auto simp: fun_eq_iff)
  next
    case (2 p q b)
    have "count_around (b(p := ?F p b)) (fst q) (snd q) = count_around b (fst q) (snd q)"
      by (rule count_around_cong) simp
    then show ?case using 2 by simp
  qed
  then show ?thesis by (simp add: CountNearbyMines_def)
qed

subsection \<open>Unfolding the cascade\<close>

lemma set_offsets: "set offsets = {(dr, dc). \<bar>dr\<bar> \<le> 1 \<and> \<bar>dc\<bar> \<le> 1}"
proof -
  have "\<bar>d\<bar> \<le> 1 \<longleftrightarrow> d = -1 \<or> d = 0 \<or> d = 1" for d :: int
    by arith
  then show ?thesis
    by (auto simp: offsets_def)
qed

lemma nbr_offsets: "nbr (r, c) (r + dr, c + dc) \<longleftrightarrow> (dr, dc) \<in> set offsets"
  by (simp add: nbr_def set_offsets)

lemma nbr_offsetsD: "nbr (r, c) n \<Longrightarrow> \<exists>(dr, dc) \<in> set offsets. n = (r + dr, c + dc)"
proof -
  assume "nbr (r, c) n"
  then have "(fst n - r, snd n - c) \<in> set offsets" "n = (r + (fst n - r), c + (snd n - c))"
    by (simp_all add: nbr_def set_offsets)
  then show ?thesis by blast
qed

lemma set_revealed_fields [simp]:
  "hasMine (set_revealed b r c p) = hasMine (b p)"
  "flagged (set_revealed b r c p) = flagged (b p)"
  "nearbyMines (set_revealed b r c p) = nearbyMines (b p)"
  "revealed (set_revealed b r c p) \<longleftrightarrow> p = (r, c) \<or> revealed (b p)"
  by (simp_all add: set_revealed_def)

lemma only_reveals_refl: "only_reveals b b"
  by (simp add: only_reveals_def)

lemma only_reveals_fields:
  assumes "only_reveals b b'"
  shows "hasMine (b' p) = hasMine (b p)" "flagged (b' p) = flagged (b p)"
    "nearbyMines (b' p) = nearbyMines (b p)" "revealed (b p) \<Longrightarrow> revealed (b' p)"
    "p \<notin> grid \<Longrightarrow> b' p = b p" "hasMine (b p) \<Longrightarrow> b' p = b p"
  using assms [unfolded only_reveals_def, rule_format, of p] by auto

lemma only_reveals_trans:
  assumes "only_reveals b b1" "only_reveals b1 b2"
  shows "only_reveals b b2"
  unfolding only_reveals_def
proof
  fix p
  from assms(1) have 1: "b1 p = b p \<or> (p \<in> grid \<and> \<not> hasMine (b p) \<and> b1 p = (b p)\<lparr>revealed := True\<rparr>)"
    unfolding only_reveals_def by blast
  from assms(2) have 2: "b2 p = b1 p \<or> (p \<in> grid \<and> \<not> hasMine (b1 p) \<and> b2 p = (b1 p)\<lparr>revealed := True\<rparr>)"
    unfolding only_reveals_def by blast
  from 1 2 show "b2 p = b p \<or> (p \<in> grid \<and> \<not> hasMine (b p) \<and> b2 p = (b p)\<lparr>revealed := True\<rparr>)"
    by auto
qed

lemma only_reveals_set_revealed:
  "inb r c \<Longrightarrow> \<not> hasMine (b (r, c)) \<Longrightarrow> only_reveals b (set_revealed b r c)"
  by (simp add: only_reveals_def set_revealed_def grid_def)

lemma only_reveals_zero_cells: "only_reveals b b' \<Longrightarrow> zero_cells b' = zero_cells b"
  by (simp add: zero_cells_def only_reveals_fields)

lemma only_reveals_cascade_set: "only_reveals b b' \<Longrightarrow> cascade_set b' s = cascade_set b s"
  by (simp add: cascade_set_def only_reveals_fields only_reveals_zero_cells)

lemma RevealEmpty_loop_Nil [simp]: "RevealEmpty_loop ord b row col [] = b"
  by (simp add: RevealEmpty_loop.simps)

lemma RevealEmpty_loop_skip:
  "\<not> (inb (row + dr) (col + dc) \<and> \<not> revealed (b (row + dr, col + dc))
       \<and> \<not> hasMine (b (row + dr, col + dc))) \<Longrightarrow>
   RevealEmpty_loop ord b row col ((dr, dc) # ds) = RevealEmpty_loop ord b row col ds"
  by (auto simp: RevealEmpty_loop.simps Let_def)

lemma RevealEmpty_loop_zero:
  "inb (row + dr) (col + dc) \<Longrightarrow> \<not> revealed (b (row + dr, col + dc)) \<Longrightarrow>
   \<not> hasMine (b (row + dr, col + dc)) \<Longrightarrow> nearbyMines (b (row + dr, col + dc)) = 0 \<Longrightarrow>
   RevealEmpty_loop ord b row col ((dr, dc) # ds) =
     RevealEmpty_loop ord
       (RevealEmpty_loop ord (set_revealed b (row + dr) (col + dc)) (row + dr) (col + dc) ord)
       row col ds"
  by (simp add: RevealEmpty_loop.simps(2) Let_def)

lemma RevealEmpty_loop_nonzero:
  "inb (row + dr) (col + dc) \<Longrightarrow> \<not> revealed (b (row + dr, col + dc)) \<Longrightarrow>
   \<not> hasMine (b (row + dr, col + dc)) \<Longrightarrow> nearbyMines (b (row + dr, col + dc)) \<noteq> 0 \<Longrightarrow>
   RevealEmpty_loop ord b row col ((dr, dc) # ds) =
     RevealEmpty_loop ord (set_revealed b (row + dr) (col + dc)) row col ds"
  by (simp add: RevealEmpty_loop.simps(2) Let_def)

lemma RevealEmpty_loop_cases [case_names Nil Skip Zero Nonzero]:
  assumes "\<And>b row col. P b row col []"
    and "\<And>b row col dr dc ds.
           \<not> (inb (row + dr) (col + dc) \<and> \<not> revealed (b (row + dr, col + dc))
              \<and> \<not> hasMine (b (row + dr, col + dc))) \<Longrightarrow>
           P b row col ds \<Longrightarrow> P b row col ((dr, dc) # ds)"
    and "\<And>b row col dr dc ds.
           inb (row + dr) (col + dc) \<Longrightarrow> \<not> revealed (b (row + dr, col + dc)) \<Longrightarrow>
           \<not> hasMine (b (row + dr, col + dc)) \<Longrightarrow> nearbyMines (b (row + dr, col + dc)) = 0 \<Longrightarrow>
           P (set_revealed b (row + dr) (col + dc)) (row + dr) (col + dc) ord \<Longrightarrow>
           P (RevealEmpty_loop ord (set_revealed b (row + dr) (col + dc)) (row + dr) (col + dc) ord)
             row col ds \<Longrightarrow>
           P b row col ((dr, dc) # ds)"
    and "\<And>b row col dr dc ds.
           inb (row + dr) (col + dc) \<Longrightarrow> \<not> revealed (b (row + dr, col + dc)) \<Longrightarrow>
           \<not> hasMine (b (row + dr, col + dc)) \<Longrightarrow> nearbyMines (b (row + dr, col + dc)) \<noteq> 0 \<Longrightarrow>
           P (set_revealed b (row + dr) (col + dc)) row col ds \<Longrightarrow>
           P b row col ((dr, dc) # ds)"
  shows "P b row col ds"
proof -
  have "ord' = ord \<longrightarrow> P b row col ds" for ord'
  proof (induction ord' b row col ds rule: RevealEmpty_loop.induct)
    case (1 ord' b row col)
    show ?case by (simp add: assms(1))
  next
    case (2 ord' b row col dr dc ds)
    let ?nr = "row + dr" and ?nc = "col + dc"
    show ?case
    proof
      assume eq: "ord' = ord"
      show "P b row col ((dr, dc) # ds)"
      proof (cases "inb ?nr ?nc \<and> \<not> revealed (b (?nr, ?nc)) \<and> \<not> hasMine (b (?nr, ?nc))")
        case False
        then have "P b row col ds"
          using 2(4) [OF refl refl] 2(5) [OF refl refl] eq by blast
        with False show ?thesis by (intro assms(2))
      next
        case True
        show ?thesis
        proof (cases "nearbyMines (b (?nr, ?nc)) = 0")
          case zero: True
          have "P (set_revealed b ?nr ?nc) ?nr ?nc ord"
            using True zero eq 2(1) [OF refl refl _ _ refl] by simp
          moreover have "P (RevealEmpty_loop ord (set_revealed b ?nr ?nc) ?nr ?nc ord) row col ds"
            using True zero eq 2(2) [OF refl refl _ _ refl] by simp
          ultimately show ?thesis using True zero by (intro assms(3)) simp_all
        next
          case nonzero: False
          have "P (set_revealed b ?nr ?nc) row col ds"
            using True nonzero eq 2(3) [OF refl refl _ _ refl] by simp
          then show ?thesis using True nonzero by (intro assms(4)) simp_all
        qed
      qed
    qed
  qed
  then show ?thesis by simp
qed

subsection \<open>What the cascade reveals\<close>

lemma RevealEmpty_loop_only_reveals: "only_reveals b (RevealEmpty_loop ord b row col ds)"
proof (induct b row col ds rule: RevealEmpty_loop_cases [where ord = ord])
  case (Nil b row col)
  show ?case by (simp add: only_reveals_refl)
next
  case (Skip b row col dr dc ds)
  then show ?case by (simp only: RevealEmpty_loop_skip [where b = b and row = row and col = col and dr = dr and dc = dc, OF Skip(1)])
next
  case (Zero b row col dr dc ds)
  have "only_reveals b (set_revealed b (row + dr) (col + dc))"
    using Zero(1,3) by (rule only_reveals_set_revealed)
  then have "only_reveals b (RevealEmpty_loop ord
       (RevealEmpty_loop ord (set_revealed b (row + dr) (col + dc)) (row + dr) (col + dc) ord)
       row col ds)"
    using Zero(5,6) by (blast intro: only_reveals_trans)
  then show ?case by (simp only: RevealEmpty_loop_zero [where b = b and row = row and col = col and dr = dr and dc = dc, OF Zero(1-4)])
next
  case (Nonzero b row col dr dc ds)
  have "only_reveals b (set_revealed b (row + dr) (col + dc))"
    using Nonzero(1,3) by (rule only_reveals_set_revealed)
  then have "only_reveals b (RevealEmpty_loop ord (set_revealed b (row + dr) (col + dc)) row col ds)"
    using Nonzero(5) by (blast intro: only_reveals_trans)
  then show ?case by (simp only: RevealEmpty_loop_nonzero [where b = b and row = row and col = col and dr = dr and dc = dc, OF Nonzero(1-4)])
qed

lemmas RevealEmpty_loop_fields = only_reveals_fields [OF RevealEmpty_loop_only_reveals]

lemma RevealEmpty_loop_visits:
  "(dr', dc') \<in> set ds \<Longrightarrow> inb (row + dr') (col + dc') \<Longrightarrow> \<not> hasMine (b (row + dr', col + dc')) \<Longrightarrow>
   revealed (RevealEmpty_loop ord b row col ds (row + dr', col + dc'))"
proof (induct b row col ds rule: RevealEmpty_loop_cases [where ord = ord])
  case (Nil b row col)
  then show ?case by simp
next
  case (Skip b row col dr dc ds)
  show ?case
  proof (cases "(dr', dc') = (dr, dc)")
    case True
    then have "revealed (b (row + dr', col + dc'))"
      using Skip(1,4,5) by auto
    then have "revealed (RevealEmpty_loop ord b row col ds (row + dr', col + dc'))"
      by (rule RevealEmpty_loop_fields(4))
    then show ?thesis by (simp only: RevealEmpty_loop_skip [where b = b and row = row and col = col and dr = dr and dc = dc, OF Skip(1)])
  next
    case False
    then have "revealed (RevealEmpty_loop ord b row col ds (row + dr', col + dc'))"
      using Skip(2-5) by auto
    then show ?thesis by (simp only: RevealEmpty_loop_skip [where b = b and row = row and col = col and dr = dr and dc = dc, OF Skip(1)])
  qed
next
  case (Zero b row col dr dc ds)
  let ?b1 = "set_revealed b (row + dr) (col + dc)"
  let ?b2 = "RevealEmpty_loop ord ?b1 (row + dr) (col + dc) ord"
  have "revealed (RevealEmpty_loop ord ?b2 row col ds (row + dr', col + dc'))"
  proof (cases "(dr', dc') = (dr, dc)")
    case True
    then have "revealed (?b1 (row + dr', col + dc'))" by simp
    then have "revealed (?b2 (row + dr', col + dc'))"
      by (rule RevealEmpty_loop_fields(4))
    then show ?thesis
      by (rule RevealEmpty_loop_fields(4))
  next
    case False
    then have "(dr', dc') \<in> set ds" using Zero(7) by auto
    moreover have "\<not> hasMine (?b2 (row + dr', col + dc'))"
      using Zero(9) by (simp add: RevealEmpty_loop_fields(1))
    ultimately show ?thesis using Zero(6,8) by simp
  qed
  then show ?case by (simp only: RevealEmpty_loop_zero [where b = b and row = row and col = col and dr = dr and dc = dc, OF Zero(1-4)])
next
  case (Nonzero b row col dr dc ds)
  let ?b1 = "set_revealed b (row + dr) (col + dc)"
  have "revealed (RevealEmpty_loop ord ?b1 row col ds (row + dr', col + dc'))"
  proof (cases "(dr', dc') = (dr, dc)")
    case True
    then have "revealed (?b1 (row + dr', col + dc'))" by simp
    then show ?thesis
      by (rule RevealEmpty_loop_fields(4))
  next
    case False
    then have "(dr', dc') \<in> set ds" using Nonzero(6) by auto
    moreover have "\<not> hasMine (?b1 (row + dr', col + dc'))"
      using Nonzero(8) by simp
    ultimately show ?thesis using Nonzero(5,7) by simp
  qed
  then show ?case by (simp only: RevealEmpty_loop_nonzero [where b = b and row = row and col = col and dr = dr and dc = dc, OF Nonzero(1-4)])
qed

lemma RevealEmpty_loop_neighbours:
  assumes ord: "set offsets - {(0, 0)} \<subseteq> set ord"
    and centre: "revealed (b (row, col))"
    and n: "n \<in> grid" "nbr (row, col) n" "\<not> hasMine (b n)"
  shows "revealed (RevealEmpty_loop ord b row col ord n)"
proof (cases "n = (row, col)")
  case True
  then have "revealed (b n)" using centre by simp
  then show ?thesis by (rule RevealEmpty_loop_fields(4))
next
  case False
  obtain dr dc where d: "(dr, dc) \<in> set offsets" "n = (row + dr, col + dc)"
    using nbr_offsetsD [OF n(2)] by blast
  then have "(dr, dc) \<noteq> (0, 0)" using False by auto
  then have "(dr, dc) \<in> set ord" using ord d(1) by blast
  then show ?thesis
    using n(1,3) unfolding d(2) by (intro RevealEmpty_loop_visits) (simp_all add: grid_def)
qed

lemma RevealEmpty_loop_closed:
  assumes ord: "set offsets - {(0, 0)} \<subseteq> set ord"
  shows "z \<in> grid \<Longrightarrow> \<not> revealed (b z) \<Longrightarrow> nearbyMines (b z) = 0 \<Longrightarrow>
    n \<in> grid \<Longrightarrow> nbr z n \<Longrightarrow> \<not> hasMine (b n) \<Longrightarrow>
    revealed (RevealEmpty_loop ord b row col ds z) \<Longrightarrow>
    revealed (RevealEmpty_loop ord b row col ds n)"
proof (induct b row col ds rule: RevealEmpty_loop_cases [where ord = ord])
  case (Nil b row col)
  then show ?case by simp
next
  case (Skip b row col dr dc ds)
  show ?case
    using Skip(2) [OF Skip(3-8)] Skip(9) by (simp only: RevealEmpty_loop_skip [where b = b and row = row and col = col and dr = dr and dc = dc, OF Skip(1)])
next
  case (Zero b row col dr dc ds)
  let ?b1 = "set_revealed b (row + dr) (col + dc)"
  let ?b2 = "RevealEmpty_loop ord ?b1 (row + dr) (col + dc) ord"
  let ?b3 = "RevealEmpty_loop ord ?b2 row col ds"
  have z3: "revealed (?b3 z)"
    using Zero(13) by (simp only: RevealEmpty_loop_zero [where b = b and row = row and col = col and dr = dr and dc = dc, OF Zero(1-4)])
  have mine2: "\<not> hasMine (?b2 n)"
    using Zero(12) by (simp add: RevealEmpty_loop_fields(1))
  have "revealed (?b3 n)"
  proof (cases "revealed (?b2 z)")
    case False
    moreover have "nearbyMines (?b2 z) = 0"
      using Zero(9) by (simp add: RevealEmpty_loop_fields(3))
    ultimately show ?thesis
      using Zero(6) [OF Zero(7) _ _ Zero(10,11) mine2 z3] by simp
  next
    case True
    have "revealed (?b2 n)"
    proof (cases "z = (row + dr, col + dc)")
      case True
      have "nbr (row + dr, col + dc) n" using Zero(11) True by simp
      then show ?thesis
        using Zero(10,12) by (intro RevealEmpty_loop_neighbours [OF ord]) simp_all
    next
      case False
      then have "\<not> revealed (?b1 z)" using Zero(8) by simp
      then show ?thesis
        using Zero(5) [OF Zero(7) _ _ Zero(10,11)] Zero(9,12) True by simp
    qed
    then show ?thesis by (rule RevealEmpty_loop_fields(4))
  qed
  then show ?case by (simp only: RevealEmpty_loop_zero [where b = b and row = row and col = col and dr = dr and dc = dc, OF Zero(1-4)])
next
  case (Nonzero b row col dr dc ds)
  let ?b1 = "set_revealed b (row + dr) (col + dc)"
  let ?b3 = "RevealEmpty_loop ord ?b1 row col ds"
  have z3: "revealed (?b3 z)"
    using Nonzero(12) by (simp only: RevealEmpty_loop_nonzero [where b = b and row = row and col = col and dr = dr and dc = dc, OF Nonzero(1-4)])
  have "z \<noteq> (row + dr, col + dc)"
    using Nonzero(4,8) by auto
  then have "\<not> revealed (?b1 z)" using Nonzero(7) by simp
  then have "revealed (?b3 n)"
    using Nonzero(5) [OF Nonzero(6) _ _ Nonzero(9,10) _ z3] Nonzero(8,11) by simp
  then show ?case by (simp only: RevealEmpty_loop_nonzero [where b = b and row = row and col = col and dr = dr and dc = dc, OF Nonzero(1-4)])
qed

lemma region_trans:
  assumes "z \<in> region Z x" "x \<in> region Z s"
  shows "z \<in> region Z s"
  using assms by (induction rule: region.induct) (auto intro: region.step)

lemma cascade_set_step:
  assumes "nbr s x" "x \<in> zero_cells b"
  shows "cascade_set b x \<subseteq> cascade_set b s"
proof -
  have "x \<in> region (zero_cells b) s"
    using assms by (blast intro: region.intros)
  then show ?thesis
    by (auto simp: cascade_set_def intro: region_trans [rotated])
qed

lemma RevealEmpty_loop_sound:
  assumes ord: "set ord \<subseteq> set offsets"
  shows "set ds \<subseteq> set offsets \<Longrightarrow> \<not> revealed (b n) \<Longrightarrow>
    revealed (RevealEmpty_loop ord b row col ds n) \<Longrightarrow> n \<in> cascade_set b (row, col)"
proof (induct b row col ds rule: RevealEmpty_loop_cases [where ord = ord])
  case (Nil b row col)
  then show ?case by simp
next
  case (Skip b row col dr dc ds)
  have ds: "set ds \<subseteq> set offsets" using Skip(3) by simp
  show ?case
    using Skip(2) [OF ds Skip(4)] Skip(5) by (simp only: RevealEmpty_loop_skip [where b = b and row = row and col = col and dr = dr and dc = dc, OF Skip(1)])
next
  case (Zero b row col dr dc ds)
  let ?x = "(row + dr, col + dc)"
  let ?b1 = "set_revealed b (row + dr) (col + dc)"
  let ?b2 = "RevealEmpty_loop ord ?b1 (row + dr) (col + dc) ord"
  let ?b3 = "RevealEmpty_loop ord ?b2 row col ds"
  have n3: "revealed (?b3 n)"
    using Zero(9) by (simp only: RevealEmpty_loop_zero [where b = b and row = row and col = col and dr = dr and dc = dc, OF Zero(1-4)])
  have or1: "only_reveals b ?b1"
    using Zero(1,3) by (rule only_reveals_set_revealed)
  have or2: "only_reveals b ?b2"
    using or1 RevealEmpty_loop_only_reveals by (rule only_reveals_trans)
  have nbx: "nbr (row, col) ?x"
    using Zero(7) by (simp add: nbr_offsets)
  have x: "?x \<in> grid" "\<not> hasMine (b ?x)"
    using Zero(1,3) by (simp_all add: grid_def)
  show ?case
  proof (cases "revealed (?b2 n)")
    case False
    then have "n \<in> cascade_set ?b2 (row, col)"
      using Zero(6) Zero(7) n3 by simp
    then show ?thesis
      by (simp only: only_reveals_cascade_set [OF or2])
  next
    case True
    show ?thesis
    proof (cases "n = ?x")
      case True
      have "(row, col) \<in> region (zero_cells b) (row, col)"
        by (rule region.start)
      then show ?thesis
        using True x nbx by (auto simp: cascade_set_def)
    next
      case False
      then have "\<not> revealed (?b1 n)" using Zero(8) by simp
      then have "n \<in> cascade_set ?b1 ?x"
        using Zero(5) ord True by simp
      then have "n \<in> cascade_set b ?x"
        by (simp only: only_reveals_cascade_set [OF or1])
      moreover have "?x \<in> zero_cells b"
        using x Zero(4) by (simp add: zero_cells_def)
      ultimately show ?thesis
        using cascade_set_step [OF nbx] by blast
    qed
  qed
next
  case (Nonzero b row col dr dc ds)
  let ?x = "(row + dr, col + dc)"
  let ?b1 = "set_revealed b (row + dr) (col + dc)"
  let ?b3 = "RevealEmpty_loop ord ?b1 row col ds"
  have n3: "revealed (?b3 n)"
    using Nonzero(8) by (simp only: RevealEmpty_loop_nonzero [where b = b and row = row and col = col and dr = dr and dc = dc, OF Nonzero(1-4)])
  have or1: "only_reveals b ?b1"
    using Nonzero(1,3) by (rule only_reveals_set_revealed)
  have nbx: "nbr (row, col) ?x"
    using Nonzero(6) by (simp add: nbr_offsets)
  have x: "?x \<in> grid" "\<not> hasMine (b ?x)"
    using Nonzero(1,3) by (simp_all add: grid_def)
  show ?case
  proof (cases "n = ?x")
    case True
    have "(row, col) \<in> region (zero_cells b) (row, col)"
      by (rule region.start)
    then show ?thesis
      using True x nbx by (auto simp: cascade_set_def)
  next
    case False
    then have "\<not> revealed (?b1 n)" using Nonzero(7) by simp
    then have "n \<in> cascade_set ?b1 (row, col)"
      using Nonzero(5,6) n3 by simp
    then show ?thesis
      by (simp only: only_reveals_cascade_set [OF or1])
  qed
qed

subsection \<open>Counting, and the placement of mines\<close>

lemma finite_grid: "finite grid"
proof -
  have "grid \<subseteq> {0..<ROWS} \<times> {0..<COLS}"
    by (auto simp: grid_def inb_def)
  then show ?thesis by (rule finite_subset) simp
qed

lemma grid_cells: "grid = set cells"
  by (simp add: grid_def set_cells)

lemma fold_count:
  "fold (\<lambda>x n. if P x then n + 1 else n) xs (k::int) = k + int (length (filter P xs))"
  by (induction xs arbitrary: k) simp_all

lemma revealedCount_card:
  "revealedCount b = int (card {p \<in> grid. revealed (b p) \<and> \<not> hasMine (b p)})"
proof -
  let ?P = "\<lambda>p. revealed (b p) \<and> \<not> hasMine (b p)"
  have "(\<lambda>(r, c) n. if revealed (b (r, c)) \<and> \<not> hasMine (b (r, c)) then n + 1 else n)
      = (\<lambda>p n. if ?P p then n + 1 else (n::int))"
    by (auto simp: fun_eq_iff)
  then have "revealedCount b = int (length (filter ?P cells))"
    by (simp add: revealedCount_def for_cells_fold fold_count)
  also have "length (filter ?P cells) = card ({p. ?P p} \<inter> set cells)"
    by (rule distinct_length_filter [OF distinct_cells])
  also have "{p. ?P p} \<inter> set cells = {p \<in> grid. ?P p}"
    by (auto simp: grid_cells)
  finally show ?thesis .
qed

lemma distinct_offsets: "distinct offsets"
  by (simp add: offsets_def)

lemma count_around_card:
  "count_around b r c = int (card {n \<in> grid. nbr (r, c) n \<and> hasMine (b n)})"
proof -
  let ?P = "\<lambda>d. inb (r + fst d) (c + snd d) \<and> hasMine (b (r + fst d, c + snd d))"
  let ?f = "\<lambda>d. (r + fst d, c + snd d)"
  have "(\<lambda>(dr, dc) count. (let nr = r + dr; nc = c + dc in
            if inb nr nc \<and> hasMine (b (nr, nc)) then count + 1 else count))
      = (\<lambda>d n. if ?P d then n + 1 else (n::int))"
    by (auto simp: fun_eq_iff Let_def)
  then have "count_around b r c = int (length (filter ?P offsets))"
    by (simp add: count_around_def fold_count)
  also have "length (filter ?P offsets) = card ({d. ?P d} \<inter> set offsets)"
    by (rule distinct_length_filter [OF distinct_offsets])
  also have "card ({d. ?P d} \<inter> set offsets) = card (?f ` ({d. ?P d} \<inter> set offsets))"
    by (rule card_image [symmetric]) (auto simp: inj_on_def)
  also have "?f ` ({d. ?P d} \<inter> set offsets) = {n \<in> grid. nbr (r, c) n \<and> hasMine (b n)}"
  proof (intro set_eqI iffI)
    fix n assume "n \<in> ?f ` ({d. ?P d} \<inter> set offsets)"
    then show "n \<in> {n \<in> grid. nbr (r, c) n \<and> hasMine (b n)}"
      by (auto simp: grid_def nbr_offsets)
  next
    fix n assume n: "n \<in> {n \<in> grid. nbr (r, c) n \<and> hasMine (b n)}"
    then obtain dr dc where d: "(dr, dc) \<in> set offsets" "n = (r + dr, c + dc)"
      using nbr_offsetsD [of r c n] by blast
    then have "?P (dr, dc)" using n by (simp add: grid_def)
    then have "(dr, dc) \<in> {d. ?P d} \<inter> set offsets" using d(1) by simp
    then show "n \<in> ?f ` ({d. ?P d} \<inter> set offsets)"
      unfolding d(2) by (rule rev_image_eqI) simp
  qed
  finally show ?thesis .
qed

lemma count_around_mined_neighbours:
  assumes "\<not> hasMine (b (r, c))"
  shows "count_around b r c = int (card (mined_neighbours b (r, c)))"
proof -
  have "{n \<in> grid. nbr (r, c) n \<and> hasMine (b n)} = mined_neighbours b (r, c)"
    using assms by (auto simp: mined_neighbours_def)
  then show ?thesis by (simp add: count_around_card)
qed

lemma only_mines_refl: "only_mines b b"
  by (simp add: only_mines_def)

lemma only_mines_trans:
  assumes "only_mines b b1" "only_mines b1 b2"
  shows "only_mines b b2"
  unfolding only_mines_def
proof
  fix p
  from assms(1) have 1: "b1 p = b p \<or> (p \<in> grid \<and> b1 p = (b p)\<lparr>hasMine := True\<rparr>)"
    unfolding only_mines_def by blast
  from assms(2) have 2: "b2 p = b1 p \<or> (p \<in> grid \<and> b2 p = (b1 p)\<lparr>hasMine := True\<rparr>)"
    unfolding only_mines_def by blast
  from 1 2 show "b2 p = b p \<or> (p \<in> grid \<and> b2 p = (b p)\<lparr>hasMine := True\<rparr>)"
    by auto
qed

lemma only_mines_fields:
  assumes "only_mines b b'"
  shows "revealed (b' p) = revealed (b p)" "flagged (b' p) = flagged (b p)"
    "nearbyMines (b' p) = nearbyMines (b p)" "p \<notin> grid \<Longrightarrow> b' p = b p"
  using assms [unfolded only_mines_def, rule_format, of p] by auto

lemma mine_count_place:
  assumes "inb r c" "\<not> hasMine (b (r, c))"
  shows "mine_count (b((r, c) := (b (r, c))\<lparr>hasMine := True\<rparr>)) = Suc (mine_count b)"
proof -
  let ?M = "{p \<in> grid. hasMine (b p)}"
  have "{p \<in> grid. hasMine ((b((r, c) := (b (r, c))\<lparr>hasMine := True\<rparr>)) p)} = insert (r, c) ?M"
    using assms(1) by (auto simp: grid_def)
  moreover have "finite ?M" using finite_grid by simp
  moreover have "(r, c) \<notin> ?M" using assms(2) by simp
  ultimately show ?thesis by (simp add: mine_count_def)
qed

lemma mod_inb: "inb (int m mod ROWS) (int n mod COLS)"
  by (simp add: inb_def ROWS_def COLS_def)

lemma PlaceMines_loop_result_aux:
  "PlaceMines_loop rnd i b placed = Some b' \<Longrightarrow>
   placed = int (mine_count b) \<longrightarrow> placed \<le> MINES \<longrightarrow>
   int (mine_count b') = MINES \<and> only_mines b b'"
proof (induction rnd i b placed b' rule: PlaceMines_loop.raw_induct [rotated, consumes 1])
  case (1 loop rnd i b placed b')
  let ?r = "int (rnd i) mod ROWS" and ?c = "int (rnd (i + 1)) mod COLS"
  let ?b1 = "b((?r, ?c) := (b (?r, ?c))\<lparr>hasMine := True\<rparr>)"
  show ?case
  proof (intro impI)
    assume inv: "placed = int (mine_count b)" "placed \<le> MINES"
    show "int (mine_count b') = MINES \<and> only_mines b b'"
    proof (cases "placed < MINES")
      case False
      then have "b' = b" using 1(2) by simp
      then show ?thesis using False inv by (simp add: only_mines_refl)
    next
      case less: True
      show ?thesis
      proof (cases "hasMine (b (?r, ?c))")
        case True
        then have "loop rnd (i + 2) b placed = Some b'"
          using 1(2) less by (simp add: Let_def)
        then show ?thesis using 1(1) inv by blast
      next
        case False
        then have run: "loop rnd (i + 2) ?b1 (placed + 1) = Some b'"
          using 1(2) less by (simp add: Let_def)
        have "int (mine_count ?b1) = placed + 1"
          using mine_count_place [of ?r ?c b, OF mod_inb False] inv by simp
        then have "int (mine_count b') = MINES \<and> only_mines ?b1 b'"
          using 1(1) [OF run] less by (simp add: fun_upd_def)
        moreover have "only_mines b ?b1"
          using mod_inb [of "rnd i" "rnd (i + 1)"] by (simp add: only_mines_def grid_def)
        ultimately show ?thesis by (blast intro: only_mines_trans)
      qed
    qed
  qed
qed

lemma PlaceMines_result:
  assumes "PlaceMines rnd b = Some b'" "mine_count b = 0"
  shows "int (mine_count b') = MINES" "only_mines b b'"
  using PlaceMines_loop_result_aux [of rnd 0 b 0 b'] assms
  by (simp_all add: PlaceMines_def MINES_def)

subsection \<open>The cascade on a closed board\<close>

lemma closedD:
  "closed b \<Longrightarrow> z \<in> grid \<Longrightarrow> n \<in> grid \<Longrightarrow> revealed (b z) \<Longrightarrow> \<not> hasMine (b z) \<Longrightarrow>
   nearbyMines (b z) = 0 \<Longrightarrow> nbr z n \<Longrightarrow> \<not> hasMine (b n) \<Longrightarrow> revealed (b n)"
  unfolding closed_def by blast

lemma nbr_refl: "nbr p p"
  by (simp add: nbr_def)

lemma start_in_cascade_set:
  "inb r c \<Longrightarrow> \<not> hasMine (b (r, c)) \<Longrightarrow> (r, c) \<in> cascade_set b (r, c)"
  using region.start [of "(r, c)" "zero_cells b"] nbr_refl [of "(r, c)"]
  by (auto simp: cascade_set_def grid_def)

lemma Cell_reveal_id: "revealed x \<Longrightarrow> x\<lparr>revealed := True\<rparr> = x"
  by simp

lemma cascade_complete:
  assumes cl: "closed b" and ord: "set offsets - {(0, 0)} \<subseteq> set ord"
    and s: "inb r c" "\<not> hasMine (b (r, c))"
    and z: "z \<in> region (zero_cells b) (r, c)"
    and n: "n \<in> grid" "nbr z n" "\<not> hasMine (b n)"
  shows "revealed (RevealEmpty_loop ord (set_revealed b r c) r c ord n)"
  using z n
proof (induction arbitrary: n rule: region.induct)
  case start
  then show ?case
    by (intro RevealEmpty_loop_neighbours [OF ord]) simp_all
next
  case (step z z')
  let ?b1 = "set_revealed b r c"
  let ?b' = "RevealEmpty_loop ord ?b1 r c ord"
  have z': "z' \<in> grid" "\<not> hasMine (b z')" "nearbyMines (b z') = 0"
    using step(3) by (simp_all add: zero_cells_def)
  have rz': "revealed (?b' z')"
    using step(4) [OF z'(1) step(2) z'(2)] .
  show ?case
  proof (cases "revealed (b z')")
    case True
    then have "revealed (b n)"
      using closedD [OF cl z'(1) step(5) _ z'(2,3) step(6,7)] by simp
    then have "revealed (?b1 n)" by simp
    then show ?thesis by (rule RevealEmpty_loop_fields(4))
  next
    case False
    show ?thesis
    proof (cases "z' = (r, c)")
      case True
      then show ?thesis
        using step(5-7) by (intro RevealEmpty_loop_neighbours [OF ord]) simp_all
    next
      case ne: False
      then have "\<not> revealed (?b1 z')" using False by simp
      then show ?thesis
        using z' step(5-7) rz'
        by (intro RevealEmpty_loop_closed [OF ord, of z' ?b1 n]) simp_all
    qed
  qed
qed

lemma cascade_exact:
  assumes cl: "closed b"
    and ord: "set offsets - {(0, 0)} \<subseteq> set ord" and ord': "set ord \<subseteq> set offsets"
    and s: "inb r c" "\<not> hasMine (b (r, c))"
  shows "RevealEmpty_loop ord (set_revealed b r c) r c ord =
         (\<lambda>p. if p \<in> cascade_set b (r, c) then (b p)\<lparr>revealed := True\<rparr> else b p)"
proof (rule ext)
  fix p
  let ?b1 = "set_revealed b r c"
  let ?b' = "RevealEmpty_loop ord ?b1 r c ord"
  have or1: "only_reveals b ?b1"
    using s by (rule only_reveals_set_revealed)
  have or: "only_reveals b ?b'"
    using or1 RevealEmpty_loop_only_reveals by (rule only_reveals_trans)
  then have alt: "?b' p = b p \<or> ?b' p = (b p)\<lparr>revealed := True\<rparr>"
    unfolding only_reveals_def by blast
  show "?b' p = (if p \<in> cascade_set b (r, c) then (b p)\<lparr>revealed := True\<rparr> else b p)"
  proof (cases "p \<in> cascade_set b (r, c)")
    case True
    then obtain z where "z \<in> region (zero_cells b) (r, c)" "p \<in> grid" "nbr z p" "\<not> hasMine (b p)"
      by (auto simp: cascade_set_def)
    then have "revealed (?b' p)"
      using cascade_complete [OF cl ord s] by simp
    have "?b' p = (b p)\<lparr>revealed := True\<rparr>"
    proof (cases "?b' p = b p")
      case same: True
      then have "revealed (b p)" using \<open>revealed (?b' p)\<close> by simp
      then show ?thesis using same by simp
    next
      case False
      then show ?thesis using alt by blast
    qed
    then show ?thesis using True by simp
  next
    case False
    have stays: "\<not> revealed (?b' p)" if hid: "\<not> revealed (b p)"
    proof
      assume rev: "revealed (?b' p)"
      have "p \<noteq> (r, c)"
        using False start_in_cascade_set [of r c b, OF s] by auto
      then have "\<not> revealed (?b1 p)" using hid by simp
      then have "p \<in> cascade_set ?b1 (r, c)"
        using rev ord' by (intro RevealEmpty_loop_sound [of ord ord]) simp_all
      then show False
        using False by (simp only: only_reveals_cascade_set [OF or1])
    qed
    have "?b' p = b p"
    proof (cases "revealed (b p)")
      case True
      then have "(b p)\<lparr>revealed := True\<rparr> = b p" by simp
      then show ?thesis using alt by auto
    next
      case hid: False
      have "?b' p \<noteq> (b p)\<lparr>revealed := True\<rparr>"
      proof
        assume "?b' p = (b p)\<lparr>revealed := True\<rparr>"
        then have "revealed (?b' p)" by simp
        then show False using stays [OF hid] by blast
      qed
      then show ?thesis using alt by blast
    qed
    then show ?thesis using False by simp
  qed
qed

subsection \<open>One pass of the main loop\<close>

lemma left_click_unfold:
  "left_click g r c =
     (if inb r c \<and> \<not> flagged (board g (r, c)) \<and> \<not> revealed (board g (r, c)) then
        if hasMine (board g (r, c))
        then g\<lparr>board := RevealAllMines (set_revealed (board g) r c), gameOver := True\<rparr>
        else if nearbyMines (board g (r, c)) = 0
             then g\<lparr>board := RevealEmpty (set_revealed (board g) r c) r c\<rparr>
             else g\<lparr>board := set_revealed (board g) r c\<rparr>
      else g)"
  by (simp add: left_click_def inb_def Let_def)

lemma left_click_noop:
  "\<not> (inb r c \<and> \<not> flagged (board g (r, c)) \<and> \<not> revealed (board g (r, c))) \<Longrightarrow>
   left_click g r c = g"
  by (auto simp: left_click_unfold)

lemma left_click_mine:
  "inb r c \<and> \<not> flagged (board g (r, c)) \<and> \<not> revealed (board g (r, c)) \<Longrightarrow>
   hasMine (board g (r, c)) \<Longrightarrow>
   left_click g r c = g\<lparr>board := RevealAllMines (set_revealed (board g) r c), gameOver := True\<rparr>"
  by (simp add: left_click_unfold)

lemma left_click_zero:
  "inb r c \<and> \<not> flagged (board g (r, c)) \<and> \<not> revealed (board g (r, c)) \<Longrightarrow>
   \<not> hasMine (board g (r, c)) \<Longrightarrow> nearbyMines (board g (r, c)) = 0 \<Longrightarrow>
   left_click g r c = g\<lparr>board := RevealEmpty (set_revealed (board g) r c) r c\<rparr>"
  by (simp add: left_click_unfold)

lemma left_click_nonzero:
  "inb r c \<and> \<not> flagged (board g (r, c)) \<and> \<not> revealed (board g (r, c)) \<Longrightarrow>
   \<not> hasMine (board g (r, c)) \<Longrightarrow> nearbyMines (board g (r, c)) \<noteq> 0 \<Longrightarrow>
   left_click g r c = g\<lparr>board := set_revealed (board g) r c\<rparr>"
  by (simp add: left_click_unfold)

lemma right_click_unfold:
  "right_click g r c =
     (if inb r c \<and> \<not> revealed (board g (r, c))
      then g\<lparr>board := (board g)((r, c) :=
                (board g (r, c))\<lparr>flagged := \<not> flagged (board g (r, c))\<rparr>)\<rparr>
      else g)"
  by (simp add: right_click_def inb_def)

lemma RevealAllMines_fields [simp]:
  "hasMine (RevealAllMines b p) = hasMine (b p)"
  "flagged (RevealAllMines b p) = flagged (b p)"
  "nearbyMines (RevealAllMines b p) = nearbyMines (b p)"
  "revealed (RevealAllMines b p) \<longleftrightarrow> revealed (b p) \<or> (p \<in> grid \<and> hasMine (b p))"
proof -
  obtain r c where p: "p = (r, c)" by (cases p)
  show "hasMine (RevealAllMines b p) = hasMine (b p)"
    "flagged (RevealAllMines b p) = flagged (b p)"
    "nearbyMines (RevealAllMines b p) = nearbyMines (b p)"
    "revealed (RevealAllMines b p) \<longleftrightarrow> revealed (b p) \<or> (p \<in> grid \<and> hasMine (b p))"
    by (auto simp: p RevealAllMines_apply grid_def)
qed

lemma RevealEmpty_only_reveals: "only_reveals b (RevealEmpty b r c)"
  unfolding RevealEmpty_def by (rule RevealEmpty_loop_only_reveals)

lemmas RevealEmpty_fields = only_reveals_fields [OF RevealEmpty_only_reveals]

lemma CountNearbyMines_fields [simp]:
  "hasMine (CountNearbyMines b p) = hasMine (b p)"
  "flagged (CountNearbyMines b p) = flagged (b p)"
  "revealed (CountNearbyMines b p) = revealed (b p)"
proof -
  obtain r c where p: "p = (r, c)" by (cases p)
  show "hasMine (CountNearbyMines b p) = hasMine (b p)"
    "flagged (CountNearbyMines b p) = flagged (b p)"
    "revealed (CountNearbyMines b p) = revealed (b p)"
    by (simp_all add: p CountNearbyMines_apply)
qed

lemma left_click_fields [simp]:
  "hasMine (board (left_click g r c) p) = hasMine (board g p)"
  "flagged (board (left_click g r c) p) = flagged (board g p)"
  "nearbyMines (board (left_click g r c) p) = nearbyMines (board g p)"
  "win (left_click g r c) = win g"
  by (simp_all add: left_click_unfold RevealEmpty_fields)

lemma left_click_mono: "revealed (board g p) \<Longrightarrow> revealed (board (left_click g r c) p)"
  by (simp add: left_click_unfold RevealEmpty_fields)

lemma left_click_gameOver:
  "gameOver (left_click g r c) \<longleftrightarrow>
     gameOver g \<or> (inb r c \<and> \<not> flagged (board g (r, c)) \<and> \<not> revealed (board g (r, c))
                  \<and> hasMine (board g (r, c)))"
  by (auto simp: left_click_unfold)

lemma right_click_fields [simp]:
  "hasMine (board (right_click g r c) p) = hasMine (board g p)"
  "revealed (board (right_click g r c) p) = revealed (board g p)"
  "nearbyMines (board (right_click g r c) p) = nearbyMines (board g p)"
  "win (right_click g r c) = win g"
  "gameOver (right_click g r c) = gameOver g"
  by (simp_all add: right_click_unfold)

lemma HandleMouseInput_fields [simp]:
  "hasMine (board (HandleMouseInput g i) p) = hasMine (board g p)"
  "nearbyMines (board (HandleMouseInput g i) p) = nearbyMines (board g p)"
  "win (HandleMouseInput g i) = win g"
  by (simp_all add: HandleMouseInput_def Let_def)

lemma HandleMouseInput_mono:
  "revealed (board g p) \<Longrightarrow> revealed (board (HandleMouseInput g i) p)"
  by (simp add: HandleMouseInput_def Let_def left_click_mono)

lemma frame_fields [simp]:
  "hasMine (board (frame g i) p) = hasMine (board g p)"
  "nearbyMines (board (frame g i) p) = nearbyMines (board g p)"
  by (simp_all add: frame_def Let_def)

lemma frame_mono: "revealed (board g p) \<Longrightarrow> revealed (board (frame g i) p)"
  by (simp add: frame_def Let_def HandleMouseInput_mono)

lemma frame_board:
  "board (frame g i) = (if \<not> gameOver g \<and> \<not> win g then board (HandleMouseInput g i) else board g)"
  by (simp add: frame_def Let_def)

lemma frame_gameOver:
  "gameOver (frame g i) \<longleftrightarrow>
     gameOver g \<or> (\<not> win g \<and> left_pressed i \<and> gameOver (left_click g (mouse_row i) (mouse_col i)))"
  by (auto simp: frame_def Let_def HandleMouseInput_def)

lemma frame_win:
  "win (frame g i) \<longleftrightarrow> win g \<or> (\<not> gameOver g \<and> CheckWin (board (HandleMouseInput g i)))"
  by (auto simp: frame_def Let_def)

lemma mine_count_cong: "(\<And>p. hasMine (b' p) = hasMine (b p)) \<Longrightarrow> mine_count b' = mine_count b"
  by (simp add: mine_count_def)

lemma closed_cong:
  assumes "\<And>p. hasMine (b' p) = hasMine (b p)" "\<And>p. nearbyMines (b' p) = nearbyMines (b p)"
    "\<And>p. revealed (b' p) = revealed (b p)"
  shows "closed b' = closed b"
  by (simp add: closed_def assms)

lemma closed_RevealEmpty:
  assumes cl: "closed b" and s: "inb r c" "\<not> hasMine (b (r, c))"
  shows "closed (RevealEmpty (set_revealed b r c) r c)"
proof -
  let ?b' = "RevealEmpty (set_revealed b r c) r c"
  have eq: "?b' = (\<lambda>p. if p \<in> cascade_set b (r, c) then (b p)\<lparr>revealed := True\<rparr> else b p)"
    unfolding RevealEmpty_def by (rule cascade_exact [OF cl _ _ s(1,2)]) simp_all
  have rev: "revealed (?b' p) \<longleftrightarrow> revealed (b p) \<or> p \<in> cascade_set b (r, c)" for p
    by (simp add: eq)
  have fld: "hasMine (?b' p) = hasMine (b p)" "nearbyMines (?b' p) = nearbyMines (b p)" for p
    by (simp_all add: eq)
  show ?thesis
    unfolding closed_def
  proof (intro ballI impI)
    fix z n
    assume z: "z \<in> grid" and n: "n \<in> grid"
      and h: "revealed (?b' z) \<and> \<not> hasMine (?b' z) \<and> nearbyMines (?b' z) = 0 \<and> nbr z n
              \<and> \<not> hasMine (?b' n)"
    have hz: "\<not> hasMine (b z)" "nearbyMines (b z) = 0" "nbr z n" "\<not> hasMine (b n)"
      using h by (simp_all add: fld)
    show "revealed (?b' n)"
    proof (cases "revealed (b z)")
      case True
      then have "revealed (b n)"
        using closedD [OF cl z n] hz by blast
      then show ?thesis by (simp add: rev)
    next
      case False
      then have "z \<in> cascade_set b (r, c)" using h by (simp add: rev)
      then obtain z0 where "z0 \<in> region (zero_cells b) (r, c)" "nbr z0 z"
        by (auto simp: cascade_set_def)
      moreover have "z \<in> zero_cells b"
        using z hz by (simp add: zero_cells_def)
      ultimately have "z \<in> region (zero_cells b) (r, c)"
        by (rule region.step)
      then have "n \<in> cascade_set b (r, c)"
        using n hz by (auto simp: cascade_set_def)
      then show ?thesis by (simp add: rev)
    qed
  qed
qed

lemma closed_reveal_other:
  assumes cl: "closed b"
    and rev: "\<And>p. revealed (b' p) \<longleftrightarrow> revealed (b p) \<or> p \<in> S"
    and fld: "\<And>p. hasMine (b' p) = hasMine (b p)" "\<And>p. nearbyMines (b' p) = nearbyMines (b p)"
    and S: "\<And>p. p \<in> S \<Longrightarrow> hasMine (b p) \<or> nearbyMines (b p) \<noteq> 0"
  shows "closed b'"
  unfolding closed_def
proof (intro ballI impI)
  fix z n
  assume z: "z \<in> grid" and n: "n \<in> grid"
    and h: "revealed (b' z) \<and> \<not> hasMine (b' z) \<and> nearbyMines (b' z) = 0 \<and> nbr z n
            \<and> \<not> hasMine (b' n)"
  have hz: "\<not> hasMine (b z)" "nearbyMines (b z) = 0" "nbr z n" "\<not> hasMine (b n)"
    using h by (simp_all add: fld)
  have "z \<notin> S" using S [of z] hz by blast
  then have "revealed (b z)" using h rev by blast
  then have "revealed (b n)"
    using closedD [OF cl z n] hz by blast
  then show "revealed (b' n)" using rev by blast
qed

lemma closed_left_click:
  assumes "closed (board g)"
  shows "closed (board (left_click g r c))"
proof (cases "inb r c \<and> \<not> flagged (board g (r, c)) \<and> \<not> revealed (board g (r, c))")
  case False
  show ?thesis using assms by (simp add: left_click_noop [OF False])
next
  case True
  let ?b = "board g"
  show ?thesis
  proof (cases "hasMine (?b (r, c))")
    case mine: True
    have "closed (RevealAllMines (set_revealed ?b r c))"
    proof (rule closed_reveal_other [OF assms, where S = "{p. p = (r, c) \<or> p \<in> grid \<and> hasMine (?b p)}"])
      show "revealed (RevealAllMines (set_revealed ?b r c) p) \<longleftrightarrow>
            revealed (?b p) \<or> p \<in> {p. p = (r, c) \<or> p \<in> grid \<and> hasMine (?b p)}" for p
        by auto
      show "p \<in> {p. p = (r, c) \<or> p \<in> grid \<and> hasMine (?b p)} \<Longrightarrow>
            hasMine (?b p) \<or> nearbyMines (?b p) \<noteq> 0" for p
        using mine by auto
    qed simp_all
    then show ?thesis by (simp add: left_click_mine [OF True mine])
  next
    case safe: False
    show ?thesis
    proof (cases "nearbyMines (?b (r, c)) = 0")
      case zero: True
      have "closed (RevealEmpty (set_revealed ?b r c) r c)"
        using assms True safe by (intro closed_RevealEmpty) simp_all
      then show ?thesis by (simp add: left_click_zero [OF True safe zero])
    next
      case nonzero: False
      have "closed (set_revealed ?b r c)"
      proof (rule closed_reveal_other [OF assms, where S = "{(r, c)}"])
        show "revealed (set_revealed ?b r c p) \<longleftrightarrow> revealed (?b p) \<or> p \<in> {(r, c)}" for p
          by auto
        show "p \<in> {(r, c)} \<Longrightarrow> hasMine (?b p) \<or> nearbyMines (?b p) \<noteq> 0" for p
          using nonzero by auto
      qed simp_all
      then show ?thesis by (simp add: left_click_nonzero [OF True safe nonzero])
    qed
  qed
qed

lemma closed_right_click: "closed (board (right_click g r c)) = closed (board g)"
  by (rule closed_cong) simp_all

lemma closed_HandleMouseInput:
  assumes "closed (board g)"
  shows "closed (board (HandleMouseInput g i))"
  using assms closed_left_click [OF assms, of "mouse_row i" "mouse_col i"]
  by (simp add: HandleMouseInput_def Let_def closed_right_click)

lemma closed_frame:
  assumes "closed (board g)"
  shows "closed (board (frame g i))"
  using assms closed_HandleMouseInput [OF assms, of i]
  by (simp add: frame_board)

lemma left_click_safe:
  assumes "\<not> gameOver (left_click g r c)"
  shows "only_reveals (board g) (board (left_click g r c))"
proof (cases "inb r c \<and> \<not> flagged (board g (r, c)) \<and> \<not> revealed (board g (r, c))")
  case False
  show ?thesis by (simp add: left_click_noop [OF False] only_reveals_refl)
next
  case True
  then have safe: "\<not> hasMine (board g (r, c))"
    using assms by (simp add: left_click_gameOver)
  have 1: "only_reveals (board g) (set_revealed (board g) r c)"
    using True safe by (intro only_reveals_set_revealed) simp_all
  then have 2: "only_reveals (board g) (RevealEmpty (set_revealed (board g) r c) r c)"
    using RevealEmpty_only_reveals by (rule only_reveals_trans)
  show ?thesis
  proof (cases "nearbyMines (board g (r, c)) = 0")
    case zero: True
    show ?thesis using 2 by (simp add: left_click_zero [OF True safe zero])
  next
    case nonzero: False
    show ?thesis using 1 by (simp add: left_click_nonzero [OF True safe nonzero])
  qed
qed

lemma frame_mine_revealed:
  assumes "hasMine (board g p)" "\<not> revealed (board g p)" "revealed (board (frame g i) p)"
  shows "\<not> gameOver g \<and> gameOver (frame g i)"
proof -
  have play: "\<not> gameOver g \<and> \<not> win g"
    using assms(2,3) by (auto simp: frame_board split: if_splits)
  have lp: "left_pressed i"
    using assms(2,3) play by (auto simp: frame_board HandleMouseInput_def Let_def split: if_splits)
  have rev: "revealed (board (left_click g (mouse_row i) (mouse_col i)) p)"
    using assms(3) play lp by (simp add: frame_board HandleMouseInput_def Let_def split: if_splits)
  have "gameOver (left_click g (mouse_row i) (mouse_col i))"
  proof (rule ccontr)
    assume "\<not> gameOver (left_click g (mouse_row i) (mouse_col i))"
    then have "only_reveals (board g) (board (left_click g (mouse_row i) (mouse_col i)))"
      by (rule left_click_safe)
    then have "board (left_click g (mouse_row i) (mouse_col i)) p = board g p"
      using assms(1) by (rule only_reveals_fields(6))
    then show False using rev assms(2) by simp
  qed
  then show ?thesis using play lp by (simp add: frame_gameOver)
qed

subsection \<open>Invariants of the reachable states\<close>

lemma InitializeBoard_grid:
  "p \<in> grid \<Longrightarrow> InitializeBoard b p =
     \<lparr>revealed = False, hasMine = False, flagged = False, nearbyMines = 0\<rparr>"
  by (cases p) (simp add: InitializeBoard_apply grid_def)

lemma mine_count_InitializeBoard: "mine_count (InitializeBoard b) = 0"
proof -
  have e: "{p \<in> grid. hasMine (InitializeBoard b p)} = {}"
    by (auto simp: InitializeBoard_grid)
  show ?thesis unfolding mine_count_def e by simp
qed

lemma new_game_cases:
  assumes "new_game rnd b0 = Some g"
  obtains bm where "PlaceMines rnd (InitializeBoard b0) = Some bm"
    and "g = \<lparr>board = CountNearbyMines bm, gameOver = False, win = False\<rparr>"
  using assms by (auto simp: new_game_def split: option.splits)

lemma new_game_props:
  assumes "new_game rnd b0 = Some g"
  shows "\<not> gameOver g" "\<not> win g" "int (mine_count (board g)) = MINES"
    "p \<in> grid \<Longrightarrow> \<not> revealed (board g p)" "p \<in> grid \<Longrightarrow> \<not> flagged (board g p)"
    "inb r c \<Longrightarrow> \<not> hasMine (board g (r, c)) \<Longrightarrow>
       nearbyMines (board g (r, c)) = count_around (board g) r c"
proof -
  from assms obtain bm where bm: "PlaceMines rnd (InitializeBoard b0) = Some bm"
    and g: "g = \<lparr>board = CountNearbyMines bm, gameOver = False, win = False\<rparr>"
    by (rule new_game_cases)
  have om: "only_mines (InitializeBoard b0) bm" and mc: "int (mine_count bm) = MINES"
    using PlaceMines_result [OF bm mine_count_InitializeBoard] by simp_all
  show "\<not> gameOver g" "\<not> win g" by (simp_all add: g)
  have "mine_count (CountNearbyMines bm) = mine_count bm"
    by (rule mine_count_cong) simp
  then show "int (mine_count (board g)) = MINES" using mc by (simp add: g)
  show "\<not> revealed (board g p)" if "p \<in> grid"
    using that by (simp add: g only_mines_fields(1) [OF om] InitializeBoard_grid)
  show "\<not> flagged (board g p)" if "p \<in> grid"
    using that by (simp add: g only_mines_fields(2) [OF om] InitializeBoard_grid)
  show "nearbyMines (board g (r, c)) = count_around (board g) r c"
    if "inb r c" "\<not> hasMine (board g (r, c))"
  proof -
    have "count_around (CountNearbyMines bm) r c = count_around bm r c"
      by (rule count_around_cong) simp
    then show ?thesis using that by (auto simp: g CountNearbyMines_apply)
  qed
qed

lemma reachable_mine_count: "reachable g \<Longrightarrow> int (mine_count (board g)) = MINES"
proof (induction rule: reachable.induct)
  case (start rnd b0 g)
  then show ?case by (rule new_game_props(3))
next
  case (step g i)
  have "mine_count (board (frame g i)) = mine_count (board g)"
    by (rule mine_count_cong) simp
  then show ?case using step.IH by simp
qed

lemma reachable_counts:
  "reachable g \<Longrightarrow> inb r c \<Longrightarrow> \<not> hasMine (board g (r, c)) \<Longrightarrow>
   nearbyMines (board g (r, c)) = count_around (board g) r c"
proof (induction rule: reachable.induct)
  case (start rnd b0 g)
  then show ?case by (intro new_game_props(6))
next
  case (step g i)
  have "count_around (board (frame g i)) r c = count_around (board g) r c"
    by (rule count_around_cong) simp
  then show ?case using step by simp
qed

lemma reachable_closed: "reachable g \<Longrightarrow> closed (board g)"
proof (induction rule: reachable.induct)
  case (start rnd b0 g)
  then show ?case
    unfolding closed_def using new_game_props(4) by blast
next
  case (step g i)
  show ?case using step.IH by (rule closed_frame)
qed

lemma reachable_mines_hidden:
  "reachable g \<Longrightarrow> \<not> gameOver g \<Longrightarrow> p \<in> grid \<Longrightarrow> hasMine (board g p) \<Longrightarrow>
   \<not> revealed (board g p)"
proof (induction rule: reachable.induct)
  case (start rnd b0 g)
  then show ?case using new_game_props(4) by blast
next
  case (step g i)
  have go: "\<not> gameOver g" using step.prems(1) by (simp add: frame_gameOver)
  have mine: "hasMine (board g p)" using step.prems(3) by simp
  have hid: "\<not> revealed (board g p)"
    using step.IH [OF go step.prems(2) mine] .
  show ?case
    using frame_mine_revealed [OF mine hid] step.prems(1) by blast
qed

lemma total_safe: "ROWS * COLS - MINES = 71"
  by (simp add: ROWS_def COLS_def MINES_def)

lemma reachable_playing_not_won:
  "reachable g \<Longrightarrow> \<not> gameOver g \<Longrightarrow> \<not> win g \<Longrightarrow> \<not> CheckWin (board g)"
proof (induction rule: reachable.induct)
  case (start rnd b0 g)
  have "{p \<in> grid. revealed (board g p) \<and> \<not> hasMine (board g p)} = {}"
    using new_game_props(4) [OF start(1)] by blast
  then have "revealedCount (board g) = 0"
    by (simp only: revealedCount_card) simp
  then show ?case
    by (simp add: CheckWin_def total_safe)
next
  case (step g i)
  have "\<not> gameOver g" using step.prems(1) by (simp add: frame_gameOver)
  then show ?case using step.prems(2) by (simp add: frame_win frame_board)
qed

subsection \<open>The concrete game\<close>

lemma new_game0: "new_game rnd0 garbage = Some game0"
  by (simp add: new_game_def PlaceMines_def game0_def board0_def mines0_def rnd0_def draws0_def
      PlaceMines_loop.simps MINES_def ROWS_def COLS_def InitializeBoard_apply inb_def Let_def)

lemma reachable_game0: "reachable game0"
  using new_game0 by (rule reachable.start)

lemma board0_cells:
  "board0 (0, 0) = \<lparr>revealed = False, hasMine = False, flagged = False, nearbyMines = 0\<rparr>"
  "board0 (0, 1) = \<lparr>revealed = False, hasMine = False, flagged = False, nearbyMines = 2\<rparr>"
  "board0 (1, 1) = \<lparr>revealed = False, hasMine = False, flagged = False, nearbyMines = 5\<rparr>"
  "board0 (0, 2) = \<lparr>revealed = False, hasMine = True, flagged = False, nearbyMines = 0\<rparr>"
  "board0 (8, 8) = \<lparr>revealed = False, hasMine = True, flagged = False, nearbyMines = 0\<rparr>"
  "board0 (4, 4) = \<lparr>revealed = False, hasMine = False, flagged = False, nearbyMines = 0\<rparr>"
  by (simp_all add: board0_def mines0_def CountNearbyMines_apply InitializeBoard_apply
      count_around_def offsets_def inb_def ROWS_def COLS_def Let_def)

subsection \<open>The commands\<close>

lemma phase_of_simps:
  "phase_of g = Playing \<longleftrightarrow> \<not> gameOver g \<and> \<not> win g"
  "phase_of g = Lost \<longleftrightarrow> gameOver g"
  "phase_of g = Won \<longleftrightarrow> \<not> gameOver g \<and> win g"
  by (simp_all add: phase_of_def)

lemma frame_not_playing: "phase_of g \<noteq> Playing \<Longrightarrow> frame g i = g"
  by (auto simp: frame_def phase_of_simps)

lemma Reveal_playing:
  "phase_of g = Playing \<Longrightarrow>
   Reveal g r c = (if CheckWin (board (left_click g r c)) then (left_click g r c)\<lparr>win := True\<rparr>
                   else left_click g r c)"
  by (simp add: Reveal_def frame_def HandleMouseInput_def phase_of_simps)

lemma ToggleFlag_playing:
  "phase_of g = Playing \<Longrightarrow>
   ToggleFlag g r c = (if CheckWin (board (right_click g r c)) then (right_click g r c)\<lparr>win := True\<rparr>
                       else right_click g r c)"
  by (simp add: ToggleFlag_def frame_def HandleMouseInput_def phase_of_simps)

lemma Reveal_playing_board:
  "phase_of g = Playing \<Longrightarrow> board (Reveal g r c) = board (left_click g r c)"
  "phase_of g = Playing \<Longrightarrow> gameOver (Reveal g r c) = gameOver (left_click g r c)"
  by (simp_all add: Reveal_playing)

subsection \<open>Neighbour counts\<close>

lemma card_offsets_without_centre: "card (set offsets - {(0, 0)}) = 8"
proof -
  have "card (set offsets) = 9"
    using distinct_card [OF distinct_offsets] by (simp add: offsets_def)
  moreover have "(0, 0) \<in> set offsets" by (simp add: offsets_def)
  ultimately show ?thesis by simp
qed

lemma card_mined_neighbours_le: "card (mined_neighbours b (r, c)) \<le> 8"
proof -
  let ?f = "\<lambda>(dr, dc). (r + dr, c + dc)"
  have "mined_neighbours b (r, c) \<subseteq> ?f ` (set offsets - {(0, 0)})"
  proof
    fix n assume n: "n \<in> mined_neighbours b (r, c)"
    then obtain dr dc where d: "(dr, dc) \<in> set offsets" "n = (r + dr, c + dc)"
      using nbr_offsetsD [of r c n] by (auto simp: mined_neighbours_def)
    moreover have "(dr, dc) \<noteq> (0, 0)"
      using n d(2) by (auto simp: mined_neighbours_def)
    ultimately have "(dr, dc) \<in> set offsets - {(0, 0)}" "n = ?f (dr, dc)" by simp_all
    then show "n \<in> ?f ` (set offsets - {(0, 0)})" by (rule rev_image_eqI)
  qed
  then have "card (mined_neighbours b (r, c)) \<le> card (?f ` (set offsets - {(0, 0)}))"
    by (intro card_mono) simp_all
  also have "\<dots> \<le> card (set offsets - {(0, 0)})"
    by (intro card_image_le) simp
  finally show ?thesis by (simp add: card_offsets_without_centre)
qed

subsection \<open>Steps that change nothing\<close>

lemma Reveal_reveals_cell:
  assumes "phase_of (Reveal g r c) = Playing" "inb r c" "\<not> flagged (board g (r, c))"
  shows "revealed (board (Reveal g r c) (r, c))"
proof -
  have play: "phase_of g = Playing"
  proof (rule ccontr)
    assume np: "phase_of g \<noteq> Playing"
    then have "Reveal g r c = g" unfolding Reveal_def by (rule frame_not_playing)
    then show False using assms(1) np by simp
  qed
  have b: "board (Reveal g r c) = board (left_click g r c)"
    and go: "\<not> gameOver (left_click g r c)"
    using assms(1) play by (simp_all add: Reveal_playing_board phase_of_simps)
  show ?thesis
  proof (cases "revealed (board g (r, c))")
    case True
    then show ?thesis unfolding b by (rule left_click_mono)
  next
    case False
    have c: "inb r c \<and> \<not> flagged (board g (r, c)) \<and> \<not> revealed (board g (r, c))"
      using assms(2,3) False by simp
    have safe: "\<not> hasMine (board g (r, c))"
      using go c by (simp add: left_click_gameOver)
    show ?thesis
    proof (cases "nearbyMines (board g (r, c)) = 0")
      case True
      have "revealed (set_revealed (board g) r c (r, c))" by simp
      then have "revealed (RevealEmpty (set_revealed (board g) r c) r c (r, c))"
        by (rule RevealEmpty_fields(4))
      then show ?thesis by (simp add: b left_click_zero [OF c safe True])
    next
      case False
      then show ?thesis by (simp add: b left_click_nonzero [OF c safe False])
    qed
  qed
qed

lemma Reveal_noop:
  assumes "reachable g"
    and "\<not> inb r c \<or> revealed (board g (r, c)) \<or> flagged (board g (r, c)) \<or> phase_of g \<noteq> Playing"
  shows "Reveal g r c = g"
proof (cases "phase_of g = Playing")
  case False
  then show ?thesis unfolding Reveal_def by (rule frame_not_playing)
next
  case True
  then have "\<not> (inb r c \<and> \<not> flagged (board g (r, c)) \<and> \<not> revealed (board g (r, c)))"
    using assms(2) by blast
  then have "left_click g r c = g" by (rule left_click_noop)
  moreover have "\<not> CheckWin (board g)"
    using assms(1) True by (intro reachable_playing_not_won) (simp_all add: phase_of_simps)
  ultimately show ?thesis by (simp add: Reveal_playing [OF True])
qed

lemma ToggleFlag_noop:
  assumes "reachable g"
    and "\<not> inb r c \<or> revealed (board g (r, c)) \<or> phase_of g \<noteq> Playing"
  shows "ToggleFlag g r c = g"
proof (cases "phase_of g = Playing")
  case False
  then show ?thesis unfolding ToggleFlag_def by (rule frame_not_playing)
next
  case True
  then have "right_click g r c = g"
    using assms(2) by (auto simp: right_click_unfold)
  moreover have "\<not> CheckWin (board g)"
    using assms(1) True by (intro reachable_playing_not_won) (simp_all add: phase_of_simps)
  ultimately show ?thesis by (simp add: ToggleFlag_playing [OF True])
qed

lemma revealedCount_cong:
  assumes "\<And>p. revealed (b' p) = revealed (b p)" "\<And>p. hasMine (b' p) = hasMine (b p)"
  shows "revealedCount b' = revealedCount b"
  by (simp add: revealedCount_card assms)

lemma ToggleFlag_flip:
  assumes "reachable g" and "inb r c" "\<not> revealed (board g (r, c))" "phase_of g = Playing"
  shows "ToggleFlag g r c =
     g\<lparr>board := (board g)((r, c) := (board g (r, c))\<lparr>flagged := \<not> flagged (board g (r, c))\<rparr>)\<rparr>"
proof -
  have rc: "right_click g r c =
     g\<lparr>board := (board g)((r, c) := (board g (r, c))\<lparr>flagged := \<not> flagged (board g (r, c))\<rparr>)\<rparr>"
    using assms(2,3) by (simp add: right_click_unfold)
  have "revealedCount (board (right_click g r c)) = revealedCount (board g)"
    by (rule revealedCount_cong) simp_all
  moreover have "\<not> CheckWin (board g)"
    using assms(1,4) by (intro reachable_playing_not_won) (simp_all add: phase_of_simps)
  ultimately have "\<not> CheckWin (board (right_click g r c))"
    by (simp add: CheckWin_def)
  then show ?thesis
    by (simp add: ToggleFlag_playing [OF assms(4)] rc)
qed

subsection \<open>Region and ring\<close>

lemma region_subset: "z \<in> region Z s \<Longrightarrow> z = s \<or> z \<in> Z"
  by (induction rule: region.induct) simp_all

lemma cascade_set_zero_region:
  assumes "s \<in> zero_cells b"
  shows "cascade_set b s = zero_region b s \<union> ring b s"
proof (intro set_eqI iffI)
  fix n assume "n \<in> cascade_set b s"
  then obtain z where n: "n \<in> grid" "\<not> hasMine (b n)" and z: "z \<in> region (zero_cells b) s" "nbr z n"
    by (auto simp: cascade_set_def)
  show "n \<in> zero_region b s \<union> ring b s"
  proof (cases "nearbyMines (b n) = 0")
    case True
    then have "n \<in> zero_cells b" using n by (simp add: zero_cells_def)
    then have "n \<in> region (zero_cells b) s" using z by (blast intro: region.step)
    then show ?thesis by (simp add: zero_region_def)
  next
    case False
    then show ?thesis using n z by (auto simp: ring_def zero_region_def)
  qed
next
  fix n assume "n \<in> zero_region b s \<union> ring b s"
  then show "n \<in> cascade_set b s"
  proof
    assume "n \<in> zero_region b s"
    then have r: "n \<in> region (zero_cells b) s" by (simp add: zero_region_def)
    then have "n \<in> zero_cells b" using region_subset [OF r] assms by blast
    then show ?thesis using r nbr_refl [of n] by (auto simp: cascade_set_def zero_cells_def)
  next
    assume "n \<in> ring b s"
    then show ?thesis by (auto simp: ring_def cascade_set_def zero_region_def)
  qed
qed

lemma board0_more:
  "board0 (1, 0) = \<lparr>revealed = False, hasMine = False, flagged = False, nearbyMines = 2\<rparr>"
  by (simp add: board0_def mines0_def CountNearbyMines_apply InitializeBoard_apply
      count_around_def offsets_def inb_def ROWS_def COLS_def Let_def)

lemma nbr_corner: "nbr (0, 0) n \<Longrightarrow> n \<in> grid \<Longrightarrow> n \<in> {(0, 0), (0, 1), (1, 0), (1, 1)}"
proof -
  assume "nbr (0, 0) n" "n \<in> grid"
  then have "(fst n = 0 \<or> fst n = 1) \<and> (snd n = 0 \<or> snd n = 1)"
    by (auto simp: nbr_def grid_def inb_def)
  then show ?thesis by (cases n) auto
qed

lemma zero_region_game0: "zero_region (board game0) (0, 0) = {(0, 0)}"
proof -
  have "z = (0, 0)" if "z \<in> region (zero_cells (board game0)) (0, 0)" for z
    using that
  proof (induction rule: region.induct)
    case start
    show ?case by simp
  next
    case (step z z')
    then have "z' \<in> {(0, 0), (0, 1), (1, 0), (1, 1)}" "nearbyMines (board0 z') = 0"
      using nbr_corner [of z'] by (simp_all add: zero_cells_def game0_def)
    then show ?case by (auto simp: board0_cells board0_more)
  qed
  then show ?thesis
    unfolding zero_region_def using region.start [of "(0, 0)"] by blast
qed

subsection \<open>The win check\<close>

lemma CheckWin_card: "CheckWin b \<longleftrightarrow> int (card (safe_revealed b)) = ROWS * COLS - MINES"
  by (simp add: CheckWin_def revealedCount_card safe_revealed_def)

lemma safe_revealed_mine_click:
  assumes "hasMine (b (r, c))"
  shows "safe_revealed (RevealAllMines (set_revealed b r c)) = safe_revealed b"
  using assms by (auto simp: safe_revealed_def)

lemma HandleMouseInput_loss:
  assumes "\<not> gameOver g" "gameOver (HandleMouseInput g i)"
  shows "safe_revealed (board (HandleMouseInput g i)) = safe_revealed (board g)"
proof -
  let ?r = "mouse_row i" and ?c = "mouse_col i"
  have lp: "left_pressed i" and go: "gameOver (left_click g ?r ?c)"
    using assms by (auto simp: HandleMouseInput_def Let_def split: if_splits)
  then have c: "inb ?r ?c \<and> \<not> flagged (board g (?r, ?c)) \<and> \<not> revealed (board g (?r, ?c))"
    and m: "hasMine (board g (?r, ?c))"
    using assms(1) by (simp_all add: left_click_gameOver)
  have "safe_revealed (board (HandleMouseInput g i)) = safe_revealed (board (left_click g ?r ?c))"
    using lp by (simp add: HandleMouseInput_def Let_def safe_revealed_def)
  also have "\<dots> = safe_revealed (board g)"
    using safe_revealed_mine_click [of "board g" ?r ?c, OF m] by (simp add: left_click_mine [OF c m])
  finally show ?thesis .
qed

lemma reachable_win:
  "reachable g \<Longrightarrow> (win g \<longleftrightarrow> CheckWin (board g)) \<and> \<not> (win g \<and> gameOver g)"
proof (induction rule: reachable.induct)
  case (start rnd b0 g)
  have "reachable g" using start by (rule reachable.start)
  then show ?case
    using new_game_props(1,2) [OF start] reachable_playing_not_won [of g] by blast
next
  case (step g i)
  show ?case
  proof (cases "\<not> gameOver g \<and> \<not> win g")
    case False
    then have "frame g i = g" by (auto simp: frame_def)
    then show ?thesis using step.IH by simp
  next
    case True
    have nw: "\<not> CheckWin (board g)" using step.IH True by simp
    have w: "win (frame g i) \<longleftrightarrow> CheckWin (board (frame g i))"
      using True by (simp add: frame_win frame_board)
    have "\<not> CheckWin (board (frame g i))" if "gameOver (frame g i)"
    proof -
      have "gameOver (HandleMouseInput g i)"
        using that True by (simp add: frame_def Let_def split: if_splits)
      then have "safe_revealed (board (HandleMouseInput g i)) = safe_revealed (board g)"
        using True by (intro HandleMouseInput_loss) simp_all
      then show ?thesis using nw True by (simp add: CheckWin_card frame_board)
    qed
    then show ?thesis using w by blast
  qed
qed

lemma length_concat_map:
  "length (concat (map (\<lambda>r. map (f r) cs) rs)) = length rs * length cs"
  by (induction rs) simp_all

lemma card_grid: "card grid = 81"
proof -
  have "card (set cells) = length cells"
    by (rule distinct_card [OF distinct_cells])
  also have "\<dots> = 81"
    by (simp add: cells_def ROWS_def COLS_def length_concat_map)
  finally show ?thesis by (simp add: grid_cells)
qed

lemma card_safe:
  assumes "reachable g"
  shows "card {p \<in> grid. \<not> hasMine (board g p)} = 71"
proof -
  have "{p \<in> grid. \<not> hasMine (board g p)} = grid - {p \<in> grid. hasMine (board g p)}"
    by auto
  then have "card {p \<in> grid. \<not> hasMine (board g p)} = card grid - mine_count (board g)"
    by (simp add: mine_count_def card_Diff_subset finite_grid)
  moreover have "mine_count (board g) = 10"
    using reachable_mine_count [OF assms] by (simp add: MINES_def)
  ultimately show ?thesis by (simp add: card_grid)
qed

lemma CheckWin_all_safe:
  assumes "reachable g"
  shows "CheckWin (board g) \<longleftrightarrow> (\<forall>p \<in> grid. \<not> hasMine (board g p) \<longrightarrow> revealed (board g p))"
proof -
  let ?S = "{p \<in> grid. \<not> hasMine (board g p)}"
  have sub: "safe_revealed (board g) \<subseteq> ?S" by (auto simp: safe_revealed_def)
  have fin: "finite ?S" using finite_grid by simp
  have "CheckWin (board g) \<longleftrightarrow> card (safe_revealed (board g)) = card ?S"
    by (simp add: CheckWin_card card_safe [OF assms] total_safe)
  also have "\<dots> \<longleftrightarrow> safe_revealed (board g) = ?S"
  proof
    assume "card (safe_revealed (board g)) = card ?S"
    then show "safe_revealed (board g) = ?S" by (rule card_subset_eq [OF fin sub])
  next
    assume "safe_revealed (board g) = ?S"
    then show "card (safe_revealed (board g)) = card ?S" by simp
  qed
  also have "\<dots> \<longleftrightarrow> (\<forall>p \<in> grid. \<not> hasMine (board g p) \<longrightarrow> revealed (board g p))"
    by (auto simp: safe_revealed_def)
  finally show ?thesis .
qed

subsection \<open>A game that is won\<close>

lemma Reveal_flagged: "flagged (board (Reveal g r c) p) = flagged (board g p)"
  by (simp add: Reveal_def frame_def Let_def HandleMouseInput_def)

lemma Reveal_safe_cell:
  assumes "phase_of g = Playing" "inb r c" "\<not> flagged (board g (r, c))" "\<not> hasMine (board g (r, c))"
  shows "revealed (board (Reveal g r c) (r, c))"
proof (cases "revealed (board g (r, c))")
  case True
  then show ?thesis unfolding Reveal_def by (rule frame_mono)
next
  case False
  have c: "inb r c \<and> \<not> flagged (board g (r, c)) \<and> \<not> revealed (board g (r, c))"
    using assms(2,3) False by simp
  have b: "board (Reveal g r c) = board (left_click g r c)"
    using assms(1) by (rule Reveal_playing_board)
  show ?thesis
  proof (cases "nearbyMines (board g (r, c)) = 0")
    case True
    have "revealed (set_revealed (board g) r c (r, c))" by simp
    then have "revealed (RevealEmpty (set_revealed (board g) r c) r c (r, c))"
      by (rule RevealEmpty_fields(4))
    then show ?thesis by (simp add: b left_click_zero [OF c assms(4) True])
  next
    case False
    then show ?thesis by (simp add: b left_click_nonzero [OF c assms(4) False])
  qed
qed

lemma safe_step:
  assumes r: "reachable g" and go: "\<not> gameOver g" and nf: "\<forall>p \<in> grid. \<not> flagged (board g p)"
    and rc: "inb r c" and safe: "\<not> hasMine (board g (r, c))"
  shows "reachable (Reveal g r c)" "\<not> gameOver (Reveal g r c)"
    "\<forall>p \<in> grid. \<not> flagged (board (Reveal g r c) p)"
    "revealed (board (Reveal g r c) (r, c))"
proof -
  show "reachable (Reveal g r c)"
    unfolding Reveal_def using r by (rule reachable.step)
  show "\<not> gameOver (Reveal g r c)"
    using go safe by (simp add: Reveal_def frame_gameOver left_click_gameOver)
  show "\<forall>p \<in> grid. \<not> flagged (board (Reveal g r c) p)"
    using nf by (simp add: Reveal_flagged)
  show "revealed (board (Reveal g r c) (r, c))"
  proof (cases "win g")
    case True
    then have "CheckWin (board g)" using reachable_win [OF r] by simp
    then have "revealed (board g (r, c))"
      using CheckWin_all_safe [OF r] rc safe by (auto simp: grid_def)
    then show ?thesis unfolding Reveal_def by (rule frame_mono)
  next
    case False
    then have "phase_of g = Playing" using go by (simp add: phase_of_simps)
    then show ?thesis
      using rc nf safe by (intro Reveal_safe_cell) (auto simp: grid_def)
  qed
qed

lemma play_safe_Cons:
  "play_safe g ((r, c) # ps) =
     play_safe (if hasMine (board g (r, c)) then g else Reveal g r c) ps"
  by (simp add: play_safe_def)

lemma play_safe_inv:
  assumes "reachable g" "\<not> gameOver g" "\<forall>p \<in> grid. \<not> flagged (board g p)" "set ps \<subseteq> grid"
  shows "reachable (play_safe g ps) \<and> \<not> gameOver (play_safe g ps)
    \<and> (\<forall>p. hasMine (board (play_safe g ps) p) = hasMine (board g p))
    \<and> (\<forall>p. \<not> hasMine (board g p) \<and> (p \<in> set ps \<or> revealed (board g p))
           \<longrightarrow> revealed (board (play_safe g ps) p))"
  using assms
proof (induction ps arbitrary: g)
  case Nil
  then show ?case by (simp add: play_safe_def)
next
  case (Cons q ps)
  obtain r c where q: "q = (r, c)" by (cases q)
  have rc: "inb r c" using Cons.prems(4) by (simp add: q grid_def)
  let ?g' = "if hasMine (board g (r, c)) then g else Reveal g r c"
  have 1: "reachable ?g'" "\<not> gameOver ?g'" "\<forall>p \<in> grid. \<not> flagged (board ?g' p)"
    using safe_step(1-3) [OF Cons.prems(1-3) rc] Cons.prems(1-3) by auto
  have 2: "\<not> hasMine (board g (r, c)) \<longrightarrow> revealed (board ?g' (r, c))"
    using safe_step(4) [OF Cons.prems(1-3) rc] by simp
  have 3: "hasMine (board ?g' p) = hasMine (board g p)" for p
    by (simp add: Reveal_def)
  have 4: "revealed (board g p) \<Longrightarrow> revealed (board ?g' p)" for p
    by (simp add: Reveal_def frame_mono)
  have ps: "set ps \<subseteq> grid" using Cons.prems(4) by simp
  note IH = Cons.IH [OF 1 ps]
  have "\<forall>p. \<not> hasMine (board g p) \<and> (p \<in> set (q # ps) \<or> revealed (board g p))
           \<longrightarrow> revealed (board (play_safe ?g' ps) p)"
  proof (intro allI impI)
    fix p
    assume h: "\<not> hasMine (board g p) \<and> (p \<in> set (q # ps) \<or> revealed (board g p))"
    then have "p \<in> set ps \<or> revealed (board ?g' p)"
      using 2 4 [of p] q by auto
    then show "revealed (board (play_safe ?g' ps) p)"
      using IH h 3 by blast
  qed
  then show ?case
    unfolding q play_safe_Cons using IH 3 by simp
qed

lemma won_game_props: "reachable won_game" "phase_of won_game = Won"
proof -
  have nf: "\<forall>p \<in> grid. \<not> flagged (board game0 p)"
    using new_game_props(5) [OF new_game0] by blast
  have go: "\<not> gameOver game0" by (simp add: game0_def)
  have inv: "reachable won_game \<and> \<not> gameOver won_game
    \<and> (\<forall>p. hasMine (board won_game p) = hasMine (board game0 p))
    \<and> (\<forall>p. \<not> hasMine (board game0 p) \<and> (p \<in> set cells \<or> revealed (board game0 p))
           \<longrightarrow> revealed (board won_game p))"
    unfolding won_game_def
    using reachable_game0 go nf by (rule play_safe_inv) (simp add: grid_cells)
  then show r: "reachable won_game" by simp
  have "\<forall>p \<in> grid. \<not> hasMine (board won_game p) \<longrightarrow> revealed (board won_game p)"
    using inv unfolding grid_cells by blast
  then have "CheckWin (board won_game)"
    using CheckWin_all_safe [OF r] by simp
  then have "win won_game" using reachable_win [OF r] by simp
  then show "phase_of won_game = Won" using inv by (simp add: phase_of_simps)
qed

subsection \<open>Flagged cells\<close>

lemma frame_flagged_cell:
  assumes "flagged (board g (mouse_row i, mouse_col i))"
  shows "revealed (board (frame g i) (mouse_row i, mouse_col i))
       = revealed (board g (mouse_row i, mouse_col i))"
proof -
  have "left_click g (mouse_row i) (mouse_col i) = g"
    using assms by (intro left_click_noop) simp
  then show ?thesis
    by (simp add: frame_def Let_def HandleMouseInput_def)
qed

lemma RevealEmpty_neighbours:
  assumes "revealed (b (r, c))" "n \<in> grid" "nbr (r, c) n" "\<not> hasMine (b n)"
  shows "revealed (RevealEmpty b r c n)"
  unfolding RevealEmpty_def using _ assms by (rule RevealEmpty_loop_neighbours) simp

lemma game0_flag:
  assumes "inb r c"
  shows "ToggleFlag game0 r c =
     game0\<lparr>board := board0((r, c) := (board0 (r, c))\<lparr>flagged := True\<rparr>)\<rparr>"
    and "reachable (ToggleFlag game0 r c)"
proof -
  have g: "(r, c) \<in> grid" using assms by (simp add: grid_def)
  have h: "\<not> revealed (board game0 (r, c))" "\<not> flagged (board game0 (r, c))"
    using new_game_props(4,5) [OF new_game0 g] by simp_all
  have p: "phase_of game0 = Playing" by (simp add: phase_of_def game0_def)
  have "ToggleFlag game0 r c =
     game0\<lparr>board := (board game0)((r, c) :=
        (board game0 (r, c))\<lparr>flagged := \<not> flagged (board game0 (r, c))\<rparr>)\<rparr>"
    using reachable_game0 assms h(1) p by (rule ToggleFlag_flip)
  then show "ToggleFlag game0 r c =
     game0\<lparr>board := board0((r, c) := (board0 (r, c))\<lparr>flagged := True\<rparr>)\<rparr>"
    using h(2) by (simp add: game0_def)
  show "reachable (ToggleFlag game0 r c)"
    unfolding ToggleFlag_def using reachable_game0 by (rule reachable.step)
qed

lemma game0_sel: "board game0 = board0" "gameOver game0 = False" "win game0 = False"
  by (simp_all add: game0_def)

lemma inb_examples: "inb 0 0" "inb 0 1" "inb 0 2" "inb 8 8" "inb 1 1" "inb 4 4"
  by (simp_all add: inb_def ROWS_def COLS_def)

lemma flagged_cascade_example:
  "flagged (board (ToggleFlag game0 0 1) (0, 1))"
  "\<not> revealed (board (ToggleFlag game0 0 1) (0, 1))"
  "board (Reveal (ToggleFlag game0 0 1) 0 0)
     = RevealEmpty (set_revealed (board (ToggleFlag game0 0 1)) 0 0) 0 0"
  "revealed (RevealEmpty (set_revealed (board (ToggleFlag game0 0 1)) 0 0) 0 0 (0, 1))"
proof -
  let ?g = "ToggleFlag game0 0 1"
  note e = game0_flag(1) [OF inb_examples(2)]
  show "flagged (board ?g (0, 1))" "\<not> revealed (board ?g (0, 1))"
    by (simp_all add: e game0_sel board0_cells)
  have p: "phase_of ?g = Playing" by (simp add: e phase_of_def game0_sel)
  have c: "inb 0 0 \<and> \<not> flagged (board ?g (0, 0)) \<and> \<not> revealed (board ?g (0, 0))"
    and s: "\<not> hasMine (board ?g (0, 0))" and z: "nearbyMines (board ?g (0, 0)) = 0"
    by (simp_all add: e game0_sel board0_cells inb_examples)
  show "board (Reveal ?g 0 0) = RevealEmpty (set_revealed (board ?g) 0 0) 0 0"
    by (simp add: Reveal_playing_board(1) [OF p] left_click_zero [OF c s z])
  have "(0, 1) \<in> grid" "nbr (0, 0) (0, 1)" "\<not> hasMine (set_revealed (board ?g) 0 0 (0, 1))"
    by (simp_all add: grid_def inb_examples nbr_def e game0_sel board0_cells)
  then show "revealed (RevealEmpty (set_revealed (board ?g) 0 0) 0 0 (0, 1))"
    by (intro RevealEmpty_neighbours) simp_all
qed

lemma corner_cascade_example:
  "reachable (Reveal game0 0 0)" "revealed (board (Reveal game0 0 0) (1, 1))"
proof -
  show "reachable (Reveal game0 0 0)"
    unfolding Reveal_def using reachable_game0 by (rule reachable.step)
  have p: "phase_of game0 = Playing" by (simp add: phase_of_def game0_sel)
  have c: "inb 0 0 \<and> \<not> flagged (board game0 (0, 0)) \<and> \<not> revealed (board game0 (0, 0))"
    and s: "\<not> hasMine (board game0 (0, 0))" and z: "nearbyMines (board game0 (0, 0)) = 0"
    by (simp_all add: game0_sel board0_cells inb_examples)
  have b: "board (Reveal game0 0 0) = RevealEmpty (set_revealed (board game0) 0 0) 0 0"
    by (simp add: Reveal_playing_board(1) [OF p] left_click_zero [OF c s z])
  have "(1, 1) \<in> grid" "nbr (0, 0) (1, 1)" "\<not> hasMine (set_revealed (board game0) 0 0 (1, 1))"
    by (simp_all add: grid_def inb_examples nbr_def game0_sel board0_cells)
  then show "revealed (board (Reveal game0 0 0) (1, 1))"
    unfolding b by (intro RevealEmpty_neighbours) simp_all
qed

lemma flagged_mine_example:
  "flagged (board (ToggleFlag game0 8 8) (8, 8))"
  "\<not> revealed (board (ToggleFlag game0 8 8) (8, 8))"
  "hasMine (board (ToggleFlag game0 8 8) (8, 8))"
  "board (Reveal (ToggleFlag game0 8 8) 0 2)
     = RevealAllMines (set_revealed (board (ToggleFlag game0 8 8)) 0 2)"
proof -
  let ?g = "ToggleFlag game0 8 8"
  note e = game0_flag(1) [OF inb_examples(4)]
  show "flagged (board ?g (8, 8))" "\<not> revealed (board ?g (8, 8))" "hasMine (board ?g (8, 8))"
    by (simp_all add: e game0_sel board0_cells)
  have p: "phase_of ?g = Playing" by (simp add: e phase_of_def game0_sel)
  have c: "inb 0 2 \<and> \<not> flagged (board ?g (0, 2)) \<and> \<not> revealed (board ?g (0, 2))"
    and m: "hasMine (board ?g (0, 2))"
    by (simp_all add: e game0_sel board0_cells inb_examples)
  show "board (Reveal ?g 0 2) = RevealAllMines (set_revealed (board ?g) 0 2)"
    by (simp add: Reveal_playing_board(1) [OF p] left_click_mine [OF c m])
qed

subsection \<open>When the placement of mines ends\<close>

lemma drawn_image_Suc:
  "drawn rnd i ` {..<Suc n} = insert (drawn rnd i 0) (drawn rnd (i + 2) ` {..<n})"
proof -
  have "drawn rnd i (Suc k) = drawn rnd (i + 2) k" for k
    by (simp add: drawn_def)
  then have "drawn rnd i ` Suc ` {..<n} = drawn rnd (i + 2) ` {..<n}"
    by (simp add: image_image)
  then show ?thesis
    by (simp add: lessThan_Suc_eq_insert_0)
qed

lemma finite_mine_set: "finite (mine_set b)"
  using finite_grid by (simp add: mine_set_def)

lemma drawn_in_grid: "drawn rnd i k \<in> grid"
  by (simp add: drawn_def grid_def mod_inb)

lemma mine_set_place:
  "(r, c) \<in> grid \<Longrightarrow> mine_set (b((r, c) := (b (r, c))\<lparr>hasMine := True\<rparr>)) = insert (r, c) (mine_set b)"
  by (auto simp: mine_set_def)

lemma PlaceMines_loop_step:
  assumes "placed < MINES" "placed = int (card (mine_set b))"
  obtains b1 where "PlaceMines_loop rnd i b placed
                      = PlaceMines_loop rnd (i + 2) b1 (int (card (mine_set b1)))"
    and "mine_set b1 = insert (drawn rnd i 0) (mine_set b)"
proof -
  let ?d = "drawn rnd i 0"
  have d: "?d = (int (rnd i) mod ROWS, int (rnd (i + 1)) mod COLS)"
    by (simp add: drawn_def)
  show thesis
  proof (cases "hasMine (b ?d)")
    case True
    have "PlaceMines_loop rnd i b placed = PlaceMines_loop rnd (i + 2) b placed"
      using assms(1) True unfolding d by (subst PlaceMines_loop.simps) (simp add: Let_def)
    moreover have "mine_set b = insert ?d (mine_set b)"
      using True drawn_in_grid [of rnd i 0] by (auto simp: mine_set_def)
    ultimately show ?thesis using assms(2) that [of b] by simp
  next
    case False
    let ?b1 = "b(?d := (b ?d)\<lparr>hasMine := True\<rparr>)"
    have run: "PlaceMines_loop rnd i b placed = PlaceMines_loop rnd (i + 2) ?b1 (placed + 1)"
      using assms(1) False unfolding d by (subst PlaceMines_loop.simps) (simp add: Let_def)
    have ms: "mine_set ?b1 = insert ?d (mine_set b)"
      using drawn_in_grid [of rnd i 0] unfolding d by (intro mine_set_place)
    have "?d \<notin> mine_set b" using False by (simp add: mine_set_def)
    then have "int (card (mine_set ?b1)) = placed + 1"
      using assms(2) finite_mine_set [of b] by (simp add: ms)
    then show ?thesis using run ms that [of ?b1] by simp
  qed
qed

lemma PlaceMines_loop_terminates:
  assumes "placed = int (card (mine_set b))"
    and "MINES \<le> int (card (mine_set b \<union> drawn rnd i ` {..<n}))"
  shows "\<exists>b'. PlaceMines_loop rnd i b placed = Some b'"
  using assms
proof (induction n arbitrary: i b placed)
  case 0
  then have "\<not> placed < MINES" by simp
  then show ?case by (subst PlaceMines_loop.simps) simp
next
  case (Suc n)
  show ?case
  proof (cases "placed < MINES")
    case False
    then show ?thesis by (subst PlaceMines_loop.simps) simp
  next
    case True
    then obtain b1 where run: "PlaceMines_loop rnd i b placed
          = PlaceMines_loop rnd (i + 2) b1 (int (card (mine_set b1)))"
      and ms: "mine_set b1 = insert (drawn rnd i 0) (mine_set b)"
      using Suc.prems(1) by (rule PlaceMines_loop_step)
    have "mine_set b1 \<union> drawn rnd (i + 2) ` {..<n} = mine_set b \<union> drawn rnd i ` {..<Suc n}"
      unfolding ms drawn_image_Suc by auto
    then have "MINES \<le> int (card (mine_set b1 \<union> drawn rnd (i + 2) ` {..<n}))"
      using Suc.prems(2) by simp
    then have "\<exists>b'. PlaceMines_loop rnd (i + 2) b1 (int (card (mine_set b1))) = Some b'"
      by (intro Suc.IH) simp_all
    then show ?thesis using run by simp
  qed
qed

lemma PlaceMines_loop_draws:
  "PlaceMines_loop rnd i b placed = Some b' \<Longrightarrow>
   placed = int (card (mine_set b)) \<longrightarrow>
   (\<exists>n. MINES \<le> int (card (mine_set b \<union> drawn rnd i ` {..<n})))"
proof (induction rnd i b placed b' rule: PlaceMines_loop.raw_induct [rotated, consumes 1])
  case (1 loop rnd i b placed b')
  show ?case
  proof (intro impI)
    assume inv: "placed = int (card (mine_set b))"
    let ?d = "drawn rnd i 0"
    have d: "?d = (int (rnd i) mod ROWS, int (rnd (i + 1)) mod COLS)"
      by (simp add: drawn_def)
    show "\<exists>n. MINES \<le> int (card (mine_set b \<union> drawn rnd i ` {..<n}))"
    proof (cases "placed < MINES")
      case False
      then have "MINES \<le> int (card (mine_set b \<union> drawn rnd i ` {..<0}))"
        using inv by simp
      then show ?thesis by blast
    next
      case less: True
      have "\<exists>b1. mine_set b1 = insert ?d (mine_set b)
              \<and> (\<exists>n. MINES \<le> int (card (mine_set b1 \<union> drawn rnd (i + 2) ` {..<n})))"
      proof (cases "hasMine (b ?d)")
        case True
        then have "loop rnd (i + 2) b placed = Some b'"
          using 1(2) less unfolding d by (simp add: Let_def)
        then have "\<exists>n. MINES \<le> int (card (mine_set b \<union> drawn rnd (i + 2) ` {..<n}))"
          using 1(1) inv by blast
        moreover have "mine_set b = insert ?d (mine_set b)"
          using True drawn_in_grid [of rnd i 0] by (auto simp: mine_set_def)
        ultimately show ?thesis by blast
      next
        case False
        let ?b1 = "b(?d := (b ?d)\<lparr>hasMine := True\<rparr>)"
        have run: "loop rnd (i + 2) ?b1 (placed + 1) = Some b'"
          using 1(2) less False unfolding d by (simp add: Let_def)
        have ms: "mine_set ?b1 = insert ?d (mine_set b)"
          using drawn_in_grid [of rnd i 0] unfolding d by (intro mine_set_place)
        have "?d \<notin> mine_set b" using False by (simp add: mine_set_def)
        then have "placed + 1 = int (card (mine_set ?b1))"
          using inv finite_mine_set [of b] by (simp add: ms)
        then have "\<exists>n. MINES \<le> int (card (mine_set ?b1 \<union> drawn rnd (i + 2) ` {..<n}))"
          using 1(1) [OF run] by (simp add: fun_upd_def)
        then show ?thesis using ms by blast
      qed
      then obtain b1 n where ms: "mine_set b1 = insert ?d (mine_set b)"
        and n: "MINES \<le> int (card (mine_set b1 \<union> drawn rnd (i + 2) ` {..<n}))"
        by blast
      have "mine_set b1 \<union> drawn rnd (i + 2) ` {..<n} = mine_set b \<union> drawn rnd i ` {..<Suc n}"
        unfolding ms drawn_image_Suc by auto
      then show ?thesis using n by metis
    qed
  qed
qed

lemma PlaceMines_terminates_iff:
  assumes "mine_set b = {}"
  shows "(\<exists>b'. PlaceMines rnd b = Some b') \<longleftrightarrow>
         (\<exists>n. MINES \<le> int (card (drawn rnd 0 ` {..<n})))"
proof
  assume "\<exists>b'. PlaceMines rnd b = Some b'"
  then obtain b' where "PlaceMines_loop rnd 0 b 0 = Some b'"
    by (auto simp: PlaceMines_def)
  then show "\<exists>n. MINES \<le> int (card (drawn rnd 0 ` {..<n}))"
    using PlaceMines_loop_draws [of rnd 0 b 0 b'] assms by simp
next
  assume "\<exists>n. MINES \<le> int (card (drawn rnd 0 ` {..<n}))"
  then obtain n where "MINES \<le> int (card (mine_set b \<union> drawn rnd 0 ` {..<n}))"
    using assms by auto
  then show "\<exists>b'. PlaceMines rnd b = Some b'"
    unfolding PlaceMines_def using assms by (intro PlaceMines_loop_terminates [of _ _ _ _ n]) simp_all
qed

lemma mine_set_InitializeBoard: "mine_set (InitializeBoard b) = {}"
  by (auto simp: mine_set_def InitializeBoard_grid)

lemma stuck_rnd_drawn: "drawn stuck_rnd 0 ` {..<n} \<subseteq> {(0, 0)}"
  by (auto simp: drawn_def stuck_rnd_def)

lemma PlaceMines_stuck: "PlaceMines stuck_rnd (InitializeBoard b) = None"
proof -
  have le: "card (drawn stuck_rnd 0 ` {..<n}) \<le> 1" for n
    using card_mono [OF _ stuck_rnd_drawn [of n]] by simp
  have "\<not> (\<exists>n. MINES \<le> int (card (drawn stuck_rnd 0 ` {..<n})))"
  proof
    assume "\<exists>n. MINES \<le> int (card (drawn stuck_rnd 0 ` {..<n}))"
    then obtain n where "MINES \<le> int (card (drawn stuck_rnd 0 ` {..<n}))" ..
    then show False using le [of n] by (simp add: MINES_def)
  qed
  then have "\<not> (\<exists>b'. PlaceMines stuck_rnd (InitializeBoard b) = Some b')"
    using PlaceMines_terminates_iff [OF mine_set_InitializeBoard] by blast
  then show ?thesis by simp
qed

subsection \<open>The work of the cascade\<close>

lemma hidden_only_reveals: "only_reveals b b' \<Longrightarrow> hidden b' \<subseteq> hidden b"
  using only_reveals_fields(4) by (auto simp: hidden_def)

text \<open>
  The number of passes through the body of the double loop that \<open>RevealEmpty\<close> makes,
  recursive calls included: the same recursion as \<open>RevealEmpty_loop\<close>, counting one for
  each offset it looks at.
\<close>

function (sequential) RevealEmpty_steps ::
  "(int \<times> int) list \<Rightarrow> board \<Rightarrow> int \<Rightarrow> int \<Rightarrow> (int \<times> int) list \<Rightarrow> nat" where
  "RevealEmpty_steps ord b row col [] = 0"
| "RevealEmpty_steps ord b row col ((dr, dc) # ds) = 1 +
     (let nr = row + dr; nc = col + dc in
      if inb nr nc then
        if \<not> revealed (b (nr, nc)) \<and> \<not> hasMine (b (nr, nc)) then
          (let b1 = set_revealed b nr nc in
           if nearbyMines (b1 (nr, nc)) = 0
           then RevealEmpty_steps ord b1 nr nc ord
                + RevealEmpty_steps ord (RevealEmpty_loop ord b1 nr nc ord) row col ds
           else RevealEmpty_steps ord b1 row col ds)
        else RevealEmpty_steps ord b row col ds
      else RevealEmpty_steps ord b row col ds)"
  by pat_completeness auto

termination RevealEmpty_steps
proof (relation "inv_image (less_than <*lex*> less_than)
          (\<lambda>(ord, b, row, col, ds). (card (hidden b), length ds))", goal_cases)
  case 1
  show ?case by (intro wf_inv_image wf_lex_prod wf_less_than)
next
  case (2 ord b row col dr dc ds nr nc b1)
  then have "card (hidden b1) < card (hidden b)"
    using card_hidden_reveal [of nr nc b] by simp
  then show ?case by simp
next
  case (3 ord b row col dr dc ds nr nc b1)
  then have "hidden b1 \<subset> hidden b"
    using hidden_reveal [of nr nc b] by simp
  moreover have "hidden (RevealEmpty_loop ord b1 nr nc ord) \<subseteq> hidden b1"
    using RevealEmpty_loop_only_reveals by (rule hidden_only_reveals)
  ultimately have "hidden (RevealEmpty_loop ord b1 nr nc ord) \<subset> hidden b"
    by (rule subset_psubset_trans [rotated])
  then have "card (hidden (RevealEmpty_loop ord b1 nr nc ord)) < card (hidden b)"
    by (intro psubset_card_mono finite_hidden)
  then show ?case by simp
next
  case (4 ord b row col dr dc ds nr nc b1)
  then have "card (hidden b1) < card (hidden b)"
    using card_hidden_reveal [of nr nc b] by simp
  then show ?case by simp
next
  case (5 ord b row col dr dc ds nr nc)
  show ?case by simp
next
  case (6 ord b row col dr dc ds nr nc)
  show ?case by simp
qed

declare RevealEmpty_steps.simps [simp del]

lemma RevealEmpty_steps_skip:
  "\<not> (inb (row + dr) (col + dc) \<and> \<not> revealed (b (row + dr, col + dc))
       \<and> \<not> hasMine (b (row + dr, col + dc))) \<Longrightarrow>
   RevealEmpty_steps ord b row col ((dr, dc) # ds) = 1 + RevealEmpty_steps ord b row col ds"
  by (auto simp: RevealEmpty_steps.simps Let_def)

lemma RevealEmpty_steps_zero:
  "inb (row + dr) (col + dc) \<Longrightarrow> \<not> revealed (b (row + dr, col + dc)) \<Longrightarrow>
   \<not> hasMine (b (row + dr, col + dc)) \<Longrightarrow> nearbyMines (b (row + dr, col + dc)) = 0 \<Longrightarrow>
   RevealEmpty_steps ord b row col ((dr, dc) # ds) =
     1 + (RevealEmpty_steps ord (set_revealed b (row + dr) (col + dc)) (row + dr) (col + dc) ord
          + RevealEmpty_steps ord
              (RevealEmpty_loop ord (set_revealed b (row + dr) (col + dc)) (row + dr) (col + dc) ord)
              row col ds)"
  by (simp add: RevealEmpty_steps.simps(2) Let_def)

lemma RevealEmpty_steps_nonzero:
  "inb (row + dr) (col + dc) \<Longrightarrow> \<not> revealed (b (row + dr, col + dc)) \<Longrightarrow>
   \<not> hasMine (b (row + dr, col + dc)) \<Longrightarrow> nearbyMines (b (row + dr, col + dc)) \<noteq> 0 \<Longrightarrow>
   RevealEmpty_steps ord b row col ((dr, dc) # ds) =
     1 + RevealEmpty_steps ord (set_revealed b (row + dr) (col + dc)) row col ds"
  by (simp add: RevealEmpty_steps.simps(2) Let_def)

lemma RevealEmpty_steps_bound:
  "RevealEmpty_steps ord b row col ds
     + length ord * card (hidden (RevealEmpty_loop ord b row col ds))
   \<le> length ds + length ord * card (hidden b)"
proof (induct b row col ds rule: RevealEmpty_loop_cases [where ord = ord])
  case (Nil b row col)
  show ?case by (simp add: RevealEmpty_steps.simps(1))
next
  case (Skip b row col dr dc ds)
  show ?case
    using Skip(2)
    by (simp only: RevealEmpty_loop_skip [where b = b and row = row and col = col and dr = dr and dc = dc, OF Skip(1)]
        RevealEmpty_steps_skip [where b = b and row = row and col = col and dr = dr and dc = dc, OF Skip(1)])
       simp
next
  case (Zero b row col dr dc ds)
  let ?b1 = "set_revealed b (row + dr) (col + dc)"
  let ?b2 = "RevealEmpty_loop ord ?b1 (row + dr) (col + dc) ord"
  let ?b3 = "RevealEmpty_loop ord ?b2 row col ds"
  have "Suc (card (hidden ?b1)) \<le> card (hidden b)"
    using card_hidden_reveal [of "row + dr" "col + dc" b, OF Zero(1,2)] by simp
  then have "length ord * Suc (card (hidden ?b1)) \<le> length ord * card (hidden b)"
    by (rule mult_le_mono2)
  then have "length ord + length ord * card (hidden ?b1) \<le> length ord * card (hidden b)"
    by simp
  then have "1 + (RevealEmpty_steps ord ?b1 (row + dr) (col + dc) ord
                  + RevealEmpty_steps ord ?b2 row col ds)
             + length ord * card (hidden ?b3)
           \<le> Suc (length ds) + length ord * card (hidden b)"
    using Zero(5,6) by linarith
  then have "1 + (RevealEmpty_steps ord ?b1 (row + dr) (col + dc) ord
                  + RevealEmpty_steps ord ?b2 row col ds)
             + length ord * card (hidden ?b3)
           \<le> length ((dr, dc) # ds) + length ord * card (hidden b)"
    by (simp only: length_Cons)
  then show ?case
    by (simp only: RevealEmpty_loop_zero [where b = b and row = row and col = col and dr = dr and dc = dc, OF Zero(1-4)]
        RevealEmpty_steps_zero [where b = b and row = row and col = col and dr = dr and dc = dc, OF Zero(1-4)])
next
  case (Nonzero b row col dr dc ds)
  let ?b1 = "set_revealed b (row + dr) (col + dc)"
  let ?b3 = "RevealEmpty_loop ord ?b1 row col ds"
  have "card (hidden ?b1) \<le> card (hidden b)"
    using card_hidden_reveal [of "row + dr" "col + dc" b, OF Nonzero(1,2)] by simp
  then have "length ord * card (hidden ?b1) \<le> length ord * card (hidden b)"
    by (rule mult_le_mono2)
  then have "1 + RevealEmpty_steps ord ?b1 row col ds + length ord * card (hidden ?b3)
           \<le> Suc (length ds) + length ord * card (hidden b)"
    using Nonzero(5) by linarith
  then have "1 + RevealEmpty_steps ord ?b1 row col ds + length ord * card (hidden ?b3)
           \<le> length ((dr, dc) # ds) + length ord * card (hidden b)"
    by (simp only: length_Cons)
  then show ?case
    by (simp only: RevealEmpty_loop_nonzero [where b = b and row = row and col = col and dr = dr and dc = dc, OF Nonzero(1-4)]
        RevealEmpty_steps_nonzero [where b = b and row = row and col = col and dr = dr and dc = dc, OF Nonzero(1-4)])
qed

lemma card_hidden_le: "card (hidden b) \<le> 81"
proof -
  have "hidden b \<subseteq> grid" by (auto simp: hidden_def grid_def)
  then have "card (hidden b) \<le> card grid"
    by (intro card_mono finite_grid)
  then show ?thesis by (simp add: card_grid)
qed

lemma length_cells: "length cells = 81"
  by (simp add: cells_def ROWS_def COLS_def length_concat_map)

lemma drawn_rnd0:
  "drawn rnd0 0 0 = (0, 2)" "drawn rnd0 0 1 = (1, 2)" "drawn rnd0 0 2 = (2, 2)"
  "drawn rnd0 0 3 = (2, 1)" "drawn rnd0 0 4 = (2, 0)" "drawn rnd0 0 6 = (8, 8)"
  "drawn rnd0 0 7 = (8, 7)" "drawn rnd0 0 8 = (8, 6)" "drawn rnd0 0 9 = (8, 5)"
  "drawn rnd0 0 10 = (8, 4)"
  by (simp_all add: drawn_def rnd0_def draws0_def ROWS_def COLS_def)

section \<open>The claims\<close>

subsection \<open>C1\<close>

text \<open>
  Claim C1. In a reachable state in phase Playing, \<open>Reveal\<close> at a hidden, unflagged cell
  without a mine whose count is 0 leaves revealed exactly the cells revealed before, the
  connected region of zero-count cells reachable from the cell, and the ring of non-zero
  cells without a mine that border that region. No mined cell changes. The board is the
  one \<open>RevealEmpty\<close> computes, and every visiting order of the neighbours (with or without
  the centre) computes the same board.
\<close>

theorem cascade_reveals_zero_region:
  assumes "reachable g" and "phase_of g = Playing" and "inb row col"
    and "\<not> revealed (board g (row, col))" and "\<not> flagged (board g (row, col))"
    and "\<not> hasMine (board g (row, col))" and "nearbyMines (board g (row, col)) = 0"
  shows "(\<forall>p. revealed (board (Reveal g row col) p) \<longleftrightarrow>
              revealed (board g p)
              \<or> p \<in> zero_region (board g) (row, col) \<union> ring (board g) (row, col))
    \<and> (\<forall>p. hasMine (board g p) \<longrightarrow> board (Reveal g row col) p = board g p)
    \<and> board (Reveal g row col) = RevealEmpty (set_revealed (board g) row col) row col
    \<and> (\<forall>ord. set offsets - {(0, 0)} \<subseteq> set ord \<and> set ord \<subseteq> set offsets \<longrightarrow>
          RevealEmpty_loop ord (set_revealed (board g) row col) row col ord =
          RevealEmpty (set_revealed (board g) row col) row col)"
proof -
  let ?b = "board g"
  let ?S = "cascade_set ?b (row, col)"
  let ?B = "\<lambda>p. if p \<in> ?S then (?b p)\<lparr>revealed := True\<rparr> else ?b p"
  have cl: "closed ?b" using assms(1) by (rule reachable_closed)
  have exact: "RevealEmpty_loop ord (set_revealed ?b row col) row col ord = ?B"
    if "set offsets - {(0, 0)} \<subseteq> set ord" "set ord \<subseteq> set offsets" for ord
    using cl that assms(3,6) by (rule cascade_exact)
  have re: "RevealEmpty (set_revealed ?b row col) row col = ?B"
    unfolding RevealEmpty_def by (rule exact) simp_all
  have c: "inb row col \<and> \<not> flagged (?b (row, col)) \<and> \<not> revealed (?b (row, col))"
    using assms(3-5) by simp
  have b: "board (Reveal g row col) = RevealEmpty (set_revealed ?b row col) row col"
    using assms(2) by (simp add: Reveal_playing_board left_click_zero [OF c assms(6,7)])
  have "(row, col) \<in> zero_cells ?b"
    using assms(3,6,7) by (simp add: zero_cells_def grid_def)
  then have S: "?S = zero_region ?b (row, col) \<union> ring ?b (row, col)"
    by (rule cascade_set_zero_region)
  have 1: "\<forall>p. revealed (board (Reveal g row col) p) \<longleftrightarrow>
              revealed (?b p) \<or> p \<in> zero_region ?b (row, col) \<union> ring ?b (row, col)"
    unfolding b re S [symmetric] by simp
  have 2: "\<forall>p. hasMine (?b p) \<longrightarrow> board (Reveal g row col) p = ?b p"
    unfolding b re by (simp add: cascade_set_def)
  have 4: "\<forall>ord. set offsets - {(0, 0)} \<subseteq> set ord \<and> set ord \<subseteq> set offsets \<longrightarrow>
          RevealEmpty_loop ord (set_revealed ?b row col) row col ord =
          RevealEmpty (set_revealed ?b row col) row col"
    unfolding re using exact by blast
  show ?thesis using 1 2 b 4 by blast
qed

theorem cascade_reveals_zero_region_witness:
  "revealed (board (Reveal game0 0 0) (0, 0)) \<and> revealed (board (Reveal game0 0 0) (1, 1))
   \<and> \<not> revealed (board (Reveal game0 0 0) (0, 2)) \<and> \<not> revealed (board (Reveal game0 0 0) (4, 4))
   \<and> RevealEmpty_loop (rev offsets) (set_revealed (board game0) 0 0) 0 0 (rev offsets)
       = board (Reveal game0 0 0)"
proof -
  have h: "phase_of game0 = Playing" "inb 0 0" "\<not> revealed (board game0 (0, 0))"
    "\<not> flagged (board game0 (0, 0))" "\<not> hasMine (board game0 (0, 0))"
    "nearbyMines (board game0 (0, 0)) = 0"
    by (simp_all add: game0_def board0_cells phase_of_def inb_def ROWS_def COLS_def)
  note t = cascade_reveals_zero_region [OF reachable_game0 h]
  have zr: "(0, 0) \<in> zero_region (board game0) (0, 0)" "(4, 4) \<notin> zero_region (board game0) (0, 0)"
    by (simp_all add: zero_region_game0)
  have rg: "(1, 1) \<in> ring (board game0) (0, 0)" "(4, 4) \<notin> ring (board game0) (0, 0)"
    using zero_region_game0
    by (simp_all add: ring_def game0_def board0_cells nbr_def grid_def inb_def ROWS_def COLS_def)
  have v: "hasMine (board game0 (0, 2))" "\<not> revealed (board game0 (0, 2))"
    "\<not> revealed (board game0 (4, 4))"
    by (simp_all add: game0_def board0_cells)
  have 1: "revealed (board (Reveal game0 0 0) (0, 0))" "revealed (board (Reveal game0 0 0) (1, 1))"
    "\<not> revealed (board (Reveal game0 0 0) (4, 4))"
    using t zr rg v(3) by blast+
  have "board (Reveal game0 0 0) (0, 2) = board game0 (0, 2)"
    using t v(1) by blast
  then have 2: "\<not> revealed (board (Reveal game0 0 0) (0, 2))"
    using v(2) by simp
  have "set offsets - {(0, 0)} \<subseteq> set (rev offsets) \<and> set (rev offsets) \<subseteq> set offsets"
    by auto
  then have 3: "RevealEmpty_loop (rev offsets) (set_revealed (board game0) 0 0) 0 0 (rev offsets)
       = board (Reveal game0 0 0)"
    using t by metis
  show ?thesis using 1 2 3 by blast
qed

subsection \<open>C2\<close>

text \<open>
  Claim C2, as stated, fails: the cascade and \<open>RevealAllMines\<close> do not read \<open>flagged\<close>.
  After a new game, flag the safe cell (0, 1) and reveal the zero cell (0, 0): the cascade
  reveals the flagged cell. Or flag the mine (8, 8) and step on the mine (0, 2):
  \<open>RevealAllMines\<close> reveals the flagged mine.
\<close>

theorem flagged_cell_revealed_counterexample:
  "reachable (ToggleFlag game0 0 1)
   \<and> flagged (board (ToggleFlag game0 0 1) (0, 1))
   \<and> \<not> revealed (board (ToggleFlag game0 0 1) (0, 1))
   \<and> revealed (board (Reveal (ToggleFlag game0 0 1) 0 0) (0, 1))
   \<and> reachable (ToggleFlag game0 8 8)
   \<and> flagged (board (ToggleFlag game0 8 8) (8, 8))
   \<and> \<not> revealed (board (ToggleFlag game0 8 8) (8, 8))
   \<and> revealed (board (Reveal (ToggleFlag game0 8 8) 0 2) (8, 8))"
proof -
  have 1: "revealed (board (Reveal (ToggleFlag game0 0 1) 0 0) (0, 1))"
    by (simp only: flagged_cascade_example(3,4))
  have "(8, 8) \<in> grid" by (simp add: grid_def inb_examples)
  then have 2: "revealed (board (Reveal (ToggleFlag game0 8 8) 0 2) (8, 8))"
    using flagged_mine_example(3) by (simp add: flagged_mine_example(4))
  show ?thesis
    using 1 2 flagged_cascade_example(1,2) flagged_mine_example(1,2)
      game0_flag(2) [OF inb_examples(2)] game0_flag(2) [OF inb_examples(4)]
    by blast
qed

text \<open>
  Claim C2, amended. The player's click reveals the cell under the mouse only if that cell
  is not flagged: a flagged cell under the mouse keeps its \<open>revealed\<close> field through the
  pass. The cascade and \<open>RevealAllMines\<close> reveal whatever the \<open>flagged\<close> field is: the
  cascade at a revealed cell reveals every neighbour in the grid without a mine,
  \<open>RevealAllMines\<close> every mined cell of the grid, and both leave every \<open>flagged\<close> field as
  it was.
\<close>

theorem click_respects_flag:
  "(flagged (board g (mouse_row i, mouse_col i)) \<longrightarrow>
      revealed (board (frame g i) (mouse_row i, mouse_col i))
        = revealed (board g (mouse_row i, mouse_col i)))
   \<and> (\<forall>p. flagged (RevealEmpty b r c p) = flagged (b p))
   \<and> (\<forall>p. flagged (RevealAllMines b p) = flagged (b p))
   \<and> (\<forall>n \<in> grid. revealed (b (r, c)) \<and> nbr (r, c) n \<and> \<not> hasMine (b n)
         \<longrightarrow> revealed (RevealEmpty b r c n))
   \<and> (\<forall>p \<in> grid. hasMine (b p) \<longrightarrow> revealed (RevealAllMines b p))"
proof -
  have 1: "flagged (board g (mouse_row i, mouse_col i)) \<longrightarrow>
      revealed (board (frame g i) (mouse_row i, mouse_col i))
        = revealed (board g (mouse_row i, mouse_col i))"
    using frame_flagged_cell by blast
  have 2: "\<forall>p. flagged (RevealEmpty b r c p) = flagged (b p)"
    by (simp add: RevealEmpty_fields(2))
  have 3: "\<forall>n \<in> grid. revealed (b (r, c)) \<and> nbr (r, c) n \<and> \<not> hasMine (b n)
         \<longrightarrow> revealed (RevealEmpty b r c n)"
    using RevealEmpty_neighbours by blast
  show ?thesis using 1 2 3 by simp
qed

theorem click_respects_flag_witness:
  "\<not> revealed (board (Reveal (ToggleFlag game0 0 1) 0 1) (0, 1))
   \<and> flagged (RevealEmpty (set_revealed (board (ToggleFlag game0 0 1)) 0 0) 0 0 (0, 1))
   \<and> revealed (RevealEmpty (set_revealed (board (ToggleFlag game0 0 1)) 0 0) 0 0 (0, 1))
   \<and> flagged (RevealAllMines (board (ToggleFlag game0 8 8)) (8, 8))
   \<and> revealed (RevealAllMines (board (ToggleFlag game0 8 8)) (8, 8))"
proof -
  let ?g = "ToggleFlag game0 0 1" and ?h = "ToggleFlag game0 8 8"
  let ?i = "\<lparr>mouse_row = 0, mouse_col = 1, left_pressed = True, right_pressed = False\<rparr>"
  note t = click_respects_flag [of ?g ?i "set_revealed (board ?g) 0 0" 0 0]
  note u = click_respects_flag [of ?g ?i "board ?h" 0 0]
  have g: "(0, 1) \<in> grid" "(8, 8) \<in> grid" "nbr (0, 0) (0, 1)"
    by (simp_all add: grid_def inb_examples nbr_def)
  have m: "\<not> hasMine (set_revealed (board ?g) 0 0 (0, 1))"
    by (simp add: game0_flag(1) [OF inb_examples(2)] game0_sel board0_cells)
  have 1: "\<not> revealed (board (Reveal ?g 0 1) (0, 1))"
    using t flagged_cascade_example(1,2) by (simp add: Reveal_def)
  have 2: "flagged (RevealEmpty (set_revealed (board ?g) 0 0) 0 0 (0, 1))"
    using t flagged_cascade_example(1) by simp
  have 3: "revealed (RevealEmpty (set_revealed (board ?g) 0 0) 0 0 (0, 1))"
    using t g m by simp
  have 4: "flagged (RevealAllMines (board ?h) (8, 8))"
    "revealed (RevealAllMines (board ?h) (8, 8))"
    using u g flagged_mine_example(1,3) by simp_all
  show ?thesis using 1 2 3 4 by blast
qed

subsection \<open>C3\<close>

text \<open>
  Claim C3. In phase Playing, revealing an in-bounds, unflagged, unrevealed mined cell sets
  the phase to Lost and leaves every mined cell revealed; a cell without a mine is revealed
  afterwards exactly if it was before, and no \<open>flagged\<close> field changes, neither in the
  whole step nor in \<open>RevealAllMines\<close> alone.
\<close>

theorem reveal_mine_loses:
  assumes "phase_of g = Playing" and "inb row col"
    and "\<not> flagged (board g (row, col))" and "\<not> revealed (board g (row, col))"
    and "hasMine (board g (row, col))"
  shows "phase_of (Reveal g row col) = Lost
    \<and> (\<forall>p \<in> grid. hasMine (board (Reveal g row col) p) \<longrightarrow> revealed (board (Reveal g row col) p))
    \<and> (\<forall>p. \<not> hasMine (board g p) \<longrightarrow>
           revealed (board (Reveal g row col) p) = revealed (board g p))
    \<and> (\<forall>p. flagged (board (Reveal g row col) p) = flagged (board g p))
    \<and> (\<forall>b p. flagged (RevealAllMines b p) = flagged (b p))"
proof -
  have click: "left_click g row col =
      g\<lparr>board := RevealAllMines (set_revealed (board g) row col), gameOver := True\<rparr>"
    using assms(2-5) by (intro left_click_mine) simp_all
  have b: "board (Reveal g row col) = RevealAllMines (set_revealed (board g) row col)"
    using assms(1) by (simp add: Reveal_playing_board click)
  have "gameOver (Reveal g row col)"
    using assms(1) by (simp add: Reveal_playing_board click)
  then have lost: "phase_of (Reveal g row col) = Lost"
    by (simp add: phase_of_simps)
  have mines: "\<forall>p \<in> grid. hasMine (board (Reveal g row col) p) \<longrightarrow>
      revealed (board (Reveal g row col) p)"
    by (simp add: b)
  have safe: "\<forall>p. \<not> hasMine (board g p) \<longrightarrow>
      revealed (board (Reveal g row col) p) = revealed (board g p)"
    using assms(5) by (auto simp: b)
  have flags: "\<forall>p. flagged (board (Reveal g row col) p) = flagged (board g p)"
    by (simp add: b)
  show ?thesis
    using lost mines safe flags by simp
qed

theorem reveal_mine_loses_witness:
  "phase_of (Reveal game0 0 2) = Lost
   \<and> revealed (board (Reveal game0 0 2) (0, 2)) \<and> revealed (board (Reveal game0 0 2) (8, 8))
   \<and> \<not> revealed (board (Reveal game0 0 2) (4, 4))
   \<and> \<not> flagged (board (Reveal game0 0 2) (8, 8))"
proof -
  have h: "phase_of game0 = Playing" "inb 0 2" "\<not> flagged (board game0 (0, 2))"
    "\<not> revealed (board game0 (0, 2))" "hasMine (board game0 (0, 2))"
    by (simp_all add: game0_def board0_cells phase_of_def inb_def ROWS_def COLS_def)
  have g: "(0, 2) \<in> grid" "(8, 8) \<in> grid"
    by (simp_all add: grid_def inb_def ROWS_def COLS_def)
  have m: "hasMine (board (Reveal game0 0 2) (0, 2))" "hasMine (board (Reveal game0 0 2) (8, 8))"
    "\<not> hasMine (board game0 (4, 4))" "\<not> revealed (board game0 (4, 4))"
    "\<not> flagged (board game0 (8, 8))"
    by (simp_all add: Reveal_def game0_def board0_cells)
  show ?thesis
    using reveal_mine_loses [OF h] g m by simp
qed

subsection \<open>C4\<close>

text \<open>
  Claim C4. In every reachable state the phase is Won exactly if the number of revealed
  cells without a mine is \<open>ROWS * COLS - MINES\<close>, which is what \<open>CheckWin\<close> computes. A
  state in phase Won is terminal: \<open>Reveal\<close> and \<open>ToggleFlag\<close> return it unchanged, whatever
  the coordinates.
\<close>

theorem win_iff_all_safe_revealed:
  assumes "reachable g"
  shows "(phase_of g = Won \<longleftrightarrow>
            int (card {p \<in> grid. revealed (board g p) \<and> \<not> hasMine (board g p)})
              = ROWS * COLS - MINES)
    \<and> (CheckWin (board g) \<longleftrightarrow>
            int (card {p \<in> grid. revealed (board g p) \<and> \<not> hasMine (board g p)})
              = ROWS * COLS - MINES)
    \<and> (phase_of g = Won \<longrightarrow> (\<forall>row col. Reveal g row col = g \<and> ToggleFlag g row col = g))"
proof -
  have c: "CheckWin (board g) \<longleftrightarrow>
      int (card {p \<in> grid. revealed (board g p) \<and> \<not> hasMine (board g p)}) = ROWS * COLS - MINES"
    by (simp add: CheckWin_card safe_revealed_def)
  have "phase_of g = Won \<longleftrightarrow> CheckWin (board g)"
    using reachable_win [OF assms] by (auto simp: phase_of_simps)
  then have w: "phase_of g = Won \<longleftrightarrow>
      int (card {p \<in> grid. revealed (board g p) \<and> \<not> hasMine (board g p)}) = ROWS * COLS - MINES"
    using c by simp
  have t: "\<forall>row col. Reveal g row col = g \<and> ToggleFlag g row col = g" if "phase_of g = Won"
    using that frame_not_playing [of g] by (simp add: Reveal_def ToggleFlag_def)
  show ?thesis using w c t by blast
qed

theorem win_iff_all_safe_revealed_witness:
  "phase_of won_game = Won
   \<and> int (card {p \<in> grid. revealed (board won_game p) \<and> \<not> hasMine (board won_game p)}) = 71
   \<and> Reveal won_game 3 3 = won_game \<and> ToggleFlag won_game 0 2 = won_game
   \<and> phase_of game0 \<noteq> Won
   \<and> int (card {p \<in> grid. revealed (board game0 p) \<and> \<not> hasMine (board game0 p)}) \<noteq> 71"
proof -
  note w = win_iff_all_safe_revealed [OF won_game_props(1)]
  note s = win_iff_all_safe_revealed [OF reachable_game0]
  have 1: "int (card {p \<in> grid. revealed (board won_game p) \<and> \<not> hasMine (board won_game p)}) = 71"
    using w won_game_props(2) by (simp add: total_safe)
  have 2: "Reveal won_game 3 3 = won_game \<and> ToggleFlag won_game 0 2 = won_game"
    using w won_game_props(2) by blast
  have 3: "phase_of game0 \<noteq> Won" by (simp add: game0_def phase_of_def)
  then have 4: "int (card {p \<in> grid. revealed (board game0 p) \<and> \<not> hasMine (board game0 p)}) \<noteq> 71"
    using s by (simp add: total_safe)
  show ?thesis using won_game_props(2) 1 2 3 4 by blast
qed

subsection \<open>C5\<close>

text \<open>
  Claim C5. In every state reached from a new game, the \<open>nearbyMines\<close> field of a cell
  without a mine is the number of mined cells among its neighbours inside the grid (at most
  8, the cell itself not counted, no wraparound), and no pass of the main loop changes a
  \<open>nearbyMines\<close> or \<open>hasMine\<close> field.
\<close>

theorem nearbyMines_exact:
  assumes "reachable g" and "inb r c" and "\<not> hasMine (board g (r, c))"
  shows "nearbyMines (board g (r, c)) = int (card (mined_neighbours (board g) (r, c)))
    \<and> card (mined_neighbours (board g) (r, c)) \<le> 8
    \<and> (\<forall>i p. nearbyMines (board (frame g i) p) = nearbyMines (board g p)
             \<and> hasMine (board (frame g i) p) = hasMine (board g p))"
proof -
  have "nearbyMines (board g (r, c)) = count_around (board g) r c"
    using assms by (rule reachable_counts)
  also have "\<dots> = int (card (mined_neighbours (board g) (r, c)))"
    using assms(3) by (rule count_around_mined_neighbours)
  finally show ?thesis
    using card_mined_neighbours_le [of "board g" r c] by simp
qed

theorem nearbyMines_exact_witness:
  "nearbyMines (board game0 (1, 1)) = 5 \<and> card (mined_neighbours (board game0) (1, 1)) = 5
   \<and> nearbyMines (board (Reveal game0 0 0) (1, 1)) = 5"
proof -
  have h: "inb 1 1" "\<not> hasMine (board game0 (1, 1))"
    by (simp_all add: game0_def board0_cells inb_def ROWS_def COLS_def)
  have v: "nearbyMines (board game0 (1, 1)) = 5"
    by (simp add: game0_def board0_cells)
  show ?thesis
    using nearbyMines_exact [OF reachable_game0 h] v by (simp add: Reveal_def)
qed

subsection \<open>C6\<close>



subsection \<open>C7\<close>

text \<open>
  Claim C7. In every reachable state, \<open>Reveal\<close> at coordinates that are out of bounds,
  or at a cell that is already revealed or flagged, or in a phase other than Playing,
  returns the state it was given: every field of every cell and both flags of the game are
  as before. The source has no return value; the result \<open>Unchanged\<close> of the claim is the
  equality of the two states. A second \<open>Reveal\<close> at the same coordinates is always such a
  step.
\<close>

theorem reveal_noop:
  assumes "reachable g"
  shows "(\<not> inb row col \<or> revealed (board g (row, col)) \<or> flagged (board g (row, col))
            \<or> phase_of g \<noteq> Playing \<longrightarrow> Reveal g row col = g)
    \<and> Reveal (Reveal g row col) row col = Reveal g row col"
proof (intro conjI impI)
  assume "\<not> inb row col \<or> revealed (board g (row, col)) \<or> flagged (board g (row, col))
            \<or> phase_of g \<noteq> Playing"
  with assms show "Reveal g row col = g" by (rule Reveal_noop)
next
  let ?g' = "Reveal g row col"
  have r': "reachable ?g'"
    unfolding Reveal_def using assms by (rule reachable.step)
  have fl: "flagged (board ?g' (row, col)) = flagged (board g (row, col))"
    by (simp add: Reveal_def frame_def Let_def HandleMouseInput_def)
  have "\<not> inb row col \<or> revealed (board ?g' (row, col)) \<or> flagged (board ?g' (row, col))
            \<or> phase_of ?g' \<noteq> Playing"
    using Reveal_reveals_cell [of g row col] fl by blast
  with r' show "Reveal ?g' row col = ?g'" by (rule Reveal_noop)
qed

theorem reveal_noop_witness:
  "Reveal game0 0 9 = game0
   \<and> Reveal (Reveal game0 0 0) 1 1 = Reveal game0 0 0
   \<and> Reveal (ToggleFlag game0 0 1) 0 1 = ToggleFlag game0 0 1
   \<and> Reveal won_game 4 4 = won_game
   \<and> Reveal (Reveal game0 4 4) 4 4 = Reveal game0 4 4"
proof -
  have 1: "Reveal game0 0 9 = game0"
    using reveal_noop [OF reachable_game0, of 0 9] by (simp add: inb_def COLS_def)
  have 2: "Reveal (Reveal game0 0 0) 1 1 = Reveal game0 0 0"
    using reveal_noop [OF corner_cascade_example(1), of 1 1] corner_cascade_example(2) by blast
  have 3: "Reveal (ToggleFlag game0 0 1) 0 1 = ToggleFlag game0 0 1"
    using reveal_noop [OF game0_flag(2) [OF inb_examples(2)], of 0 1] flagged_cascade_example(1)
    by blast
  have 4: "Reveal won_game 4 4 = won_game"
    using reveal_noop [OF won_game_props(1), of 4 4] won_game_props(2) by simp
  have 5: "Reveal (Reveal game0 4 4) 4 4 = Reveal game0 4 4"
    using reveal_noop [OF reachable_game0, of 4 4] by blast
  show ?thesis using 1 2 3 4 5 by blast
qed

subsection \<open>C8\<close>

text \<open>
  Claim C8. In every reachable state, \<open>ToggleFlag\<close> returns the state it was given when
  the coordinates are out of bounds, the cell is revealed or the phase is not Playing;
  otherwise it negates the \<open>flagged\<close> field of that one cell and changes nothing else.
  Applied twice it gives back the original state, and it never changes a \<open>revealed\<close> field.
\<close>

theorem toggle_flag:
  assumes "reachable g"
  shows "(\<not> inb row col \<or> revealed (board g (row, col)) \<or> phase_of g \<noteq> Playing
            \<longrightarrow> ToggleFlag g row col = g)
    \<and> (inb row col \<and> \<not> revealed (board g (row, col)) \<and> phase_of g = Playing
            \<longrightarrow> ToggleFlag g row col =
                 g\<lparr>board := (board g)((row, col) :=
                      (board g (row, col))\<lparr>flagged := \<not> flagged (board g (row, col))\<rparr>)\<rparr>)
    \<and> ToggleFlag (ToggleFlag g row col) row col = g
    \<and> (\<forall>p. revealed (board (ToggleFlag g row col) p) = revealed (board g p))"
proof -
  let ?g' = "ToggleFlag g row col"
  let ?flip = "\<lambda>g. g\<lparr>board := (board g)((row, col) :=
                      (board g (row, col))\<lparr>flagged := \<not> flagged (board g (row, col))\<rparr>)\<rparr>"
  have noop: "ToggleFlag g row col = g"
    if "\<not> inb row col \<or> revealed (board g (row, col)) \<or> phase_of g \<noteq> Playing"
    using assms that by (rule ToggleFlag_noop)
  have flip: "ToggleFlag g row col = ?flip g"
    if "inb row col \<and> \<not> revealed (board g (row, col)) \<and> phase_of g = Playing"
    using assms that by (intro ToggleFlag_flip) simp_all
  have r': "reachable ?g'"
    unfolding ToggleFlag_def using assms by (rule reachable.step)
  have twice: "ToggleFlag ?g' row col = g"
  proof (cases "inb row col \<and> \<not> revealed (board g (row, col)) \<and> phase_of g = Playing")
    case False
    then show ?thesis using noop by auto
  next
    case True
    have 1: "?g' = ?flip g" using True by (rule flip)
    have "inb row col \<and> \<not> revealed (board ?g' (row, col)) \<and> phase_of ?g' = Playing"
      using True unfolding 1 by (simp add: phase_of_simps)
    then have "ToggleFlag ?g' row col = ?flip ?g'"
      using r' by (intro ToggleFlag_flip) simp_all
    also have "\<dots> = g"
      unfolding 1 by simp
    finally show ?thesis .
  qed
  have rev: "\<forall>p. revealed (board ?g' p) = revealed (board g p)"
    by (simp add: ToggleFlag_def frame_def Let_def HandleMouseInput_def)
  show ?thesis
    using noop flip twice rev by blast
qed

theorem toggle_flag_witness:
  "ToggleFlag game0 9 0 = game0
   \<and> ToggleFlag (Reveal game0 0 0) 1 1 = Reveal game0 0 0
   \<and> ToggleFlag won_game 4 4 = won_game
   \<and> flagged (board (ToggleFlag game0 0 1) (0, 1)) \<and> \<not> flagged (board (ToggleFlag game0 0 1) (0, 0))
   \<and> ToggleFlag (ToggleFlag game0 0 1) 0 1 = game0
   \<and> \<not> revealed (board (ToggleFlag game0 0 1) (0, 1))"
proof -
  have a: "\<not> inb 9 0" "inb 0 1" "\<not> revealed (board game0 (0, 1))" "phase_of game0 = Playing"
    "\<not> flagged (board game0 (0, 1))" "\<not> flagged (board game0 (0, 0))"
    by (simp_all add: inb_def ROWS_def COLS_def game0_def board0_cells phase_of_def)
  note t = toggle_flag [OF reachable_game0]
  have t1: "ToggleFlag game0 9 0 = game0"
    using t [of 9 0] a(1) by blast
  have r1: "ToggleFlag (Reveal game0 0 0) 1 1 = Reveal game0 0 0"
    using toggle_flag [OF corner_cascade_example(1), of 1 1] corner_cascade_example(2) by blast
  have w1: "ToggleFlag won_game 4 4 = won_game"
    using toggle_flag [OF won_game_props(1), of 4 4] won_game_props(2) by simp
  have e: "ToggleFlag game0 0 1 = game0\<lparr>board := (board game0)((0, 1) :=
                      (board game0 (0, 1))\<lparr>flagged := \<not> flagged (board game0 (0, 1))\<rparr>)\<rparr>"
    using t [of 0 1] a(2-4) by blast
  have t2: "ToggleFlag (ToggleFlag game0 0 1) 0 1 = game0"
    using t [of 0 1] by blast
  have t3: "\<not> revealed (board (ToggleFlag game0 0 1) (0, 1))"
    using t [of 0 1] a(3) by blast
  have fl: "flagged (board (ToggleFlag game0 0 1) (0, 1))"
    "\<not> flagged (board (ToggleFlag game0 0 1) (0, 0))"
    using a(5,6) by (simp_all add: e)
  show ?thesis
    using t1 r1 w1 t2 t3 fl by blast
qed

subsection \<open>C9\<close>

text \<open>
  Claim C9, as stated, fails for the mine placement: \<open>PlaceMines\<close> draws cells until
  \<open>MINES\<close> of them are distinct, and on a random source that keeps returning the same
  number the loop never ends, so no new game starts.
\<close>

theorem PlaceMines_diverges_counterexample:
  "PlaceMines stuck_rnd (InitializeBoard garbage) = None \<and> new_game stuck_rnd garbage = None"
  by (simp add: PlaceMines_stuck new_game_def)

text \<open>
  Claim C9, amended. \<open>Reveal\<close> with its cascade and \<open>ToggleFlag\<close> always terminate: the
  recursion of \<open>RevealEmpty\<close> was shown to terminate on the number of hidden cells, which
  each recursive call has just lowered, and the cascade makes at most
  \<open>9 * (ROWS * COLS + 1)\<close> passes through its loop body; the other loops over the board
  run their body once for each of the \<open>ROWS * COLS\<close> cells. The mine placement loop of a
  new game terminates if and only if the random source yields \<open>MINES\<close> distinct cells in
  some finite number of draws.
\<close>

theorem operations_terminate:
  "RevealEmpty_steps offsets b row col offsets \<le> 9 * (nat (ROWS * COLS) + 1)
   \<and> (\<forall>body s. for_cells body s = fold (\<lambda>(r, c). body r c) cells s)
   \<and> int (length cells) = ROWS * COLS
   \<and> (mine_set b = {} \<longrightarrow>
        ((\<exists>b'. PlaceMines rnd b = Some b') \<longleftrightarrow>
         (\<exists>n. MINES \<le> int (card (drawn rnd 0 ` {..<n})))))"
proof -
  have "RevealEmpty_steps offsets b row col offsets
          \<le> length offsets + length offsets * card (hidden b)"
    using RevealEmpty_steps_bound [of offsets b row col offsets] by simp
  also have "\<dots> \<le> 9 + 9 * 81"
    using card_hidden_le [of b] by (simp add: offsets_def)
  finally have 1: "RevealEmpty_steps offsets b row col offsets \<le> 9 * (nat (ROWS * COLS) + 1)"
    by (simp add: ROWS_def COLS_def)
  have 2: "\<forall>body s. for_cells body s = fold (\<lambda>(r, c). body r c) cells s"
    by (simp add: for_cells_fold)
  have 3: "int (length cells) = ROWS * COLS"
    by (simp add: length_cells ROWS_def COLS_def)
  show ?thesis
    using 1 2 3 PlaceMines_terminates_iff by blast
qed

theorem operations_terminate_witness:
  "RevealEmpty_steps offsets (set_revealed (board game0) 0 0) 0 0 offsets \<le> 738
   \<and> MINES \<le> int (card (drawn rnd0 0 ` {..<11}))
   \<and> PlaceMines rnd0 (InitializeBoard garbage) \<noteq> None"
proof -
  note t = operations_terminate [of "InitializeBoard garbage" _ _ rnd0]
  have "RevealEmpty_steps offsets (set_revealed (board game0) 0 0) 0 0 offsets
          \<le> 9 * (nat (ROWS * COLS) + 1)"
    using operations_terminate [of "set_revealed (board game0) 0 0" 0 0 rnd0] by blast
  then have 1: "RevealEmpty_steps offsets (set_revealed (board game0) 0 0) 0 0 offsets \<le> 738"
    by (simp add: ROWS_def COLS_def)
  have "set mines0 \<subseteq> drawn rnd0 0 ` {..<11}"
    unfolding mines0_def using drawn_rnd0 [symmetric] by auto
  then have "card (set mines0) \<le> card (drawn rnd0 0 ` {..<11})"
    by (intro card_mono) simp_all
  moreover have "card (set mines0) = 10"
    by (simp add: mines0_def)
  ultimately have 2: "MINES \<le> int (card (drawn rnd0 0 ` {..<11}))"
    by (simp add: MINES_def)
  then have "\<exists>b'. PlaceMines rnd0 (InitializeBoard garbage) = Some b'"
    using t mine_set_InitializeBoard by blast
  then show ?thesis using 1 2 by auto
qed

subsection \<open>C10\<close>

text \<open>
  Claim C10. In every reachable state that is not lost, no cell of the grid holds a mine
  and is revealed. A mined cell becomes revealed only in a pass of the main loop that
  starts in phase Playing and ends in phase Lost.
\<close>

theorem mines_hidden_until_loss:
  assumes "reachable g"
  shows "(phase_of g \<noteq> Lost \<longrightarrow>
           (\<forall>p \<in> grid. \<not> (hasMine (board g p) \<and> revealed (board g p))))
    \<and> (\<forall>i p. hasMine (board g p) \<and> \<not> revealed (board g p) \<and> revealed (board (frame g i) p)
           \<longrightarrow> phase_of g = Playing \<and> phase_of (frame g i) = Lost)"
proof (intro conjI impI allI ballI)
  fix p
  assume "phase_of g \<noteq> Lost" and "p \<in> grid"
  then show "\<not> (hasMine (board g p) \<and> revealed (board g p))"
    using reachable_mines_hidden [OF assms] by (auto simp: phase_of_simps)
next
  fix i p
  assume h: "hasMine (board g p) \<and> \<not> revealed (board g p) \<and> revealed (board (frame g i) p)"
  then have over: "\<not> gameOver g \<and> gameOver (frame g i)"
    using frame_mine_revealed by blast
  have "\<not> win g"
  proof
    assume "win g"
    then have "frame g i = g" by (simp add: frame_def)
    then show False using h by simp
  qed
  then show "phase_of g = Playing" using over by (simp add: phase_of_simps)
  show "phase_of (frame g i) = Lost" using over by (simp add: phase_of_simps)
qed

theorem mines_hidden_until_loss_witness:
  "\<not> revealed (board game0 (0, 2)) \<and> phase_of game0 = Playing
   \<and> revealed (board (Reveal game0 0 2) (0, 2)) \<and> phase_of (Reveal game0 0 2) = Lost"
proof -
  let ?i = "\<lparr>mouse_row = 0, mouse_col = 2, left_pressed = True, right_pressed = False\<rparr>"
  have g: "(0, 2) \<in> grid" "inb 0 2"
    by (simp_all add: grid_def inb_def ROWS_def COLS_def)
  have m: "hasMine (board game0 (0, 2))" "phase_of game0 \<noteq> Lost"
    by (simp_all add: game0_def board0_cells phase_of_simps)
  have hid: "\<not> revealed (board game0 (0, 2))"
    using mines_hidden_until_loss [OF reachable_game0] g m by blast
  have "\<not> flagged (board game0 (0, 2))" "phase_of game0 = Playing"
    by (simp_all add: game0_def board0_cells phase_of_simps)
  then have "board (Reveal game0 0 2) = RevealAllMines (set_revealed (board game0) 0 2)"
    using left_click_mine [of 0 2 game0] g m hid by (simp add: Reveal_playing_board)
  then have rev: "revealed (board (frame game0 ?i) (0, 2))"
    by (simp add: Reveal_def)
  show ?thesis
    using mines_hidden_until_loss [OF reachable_game0] m(1) hid rev
    unfolding Reveal_def by blast
qed

end
